theory Spec2Isabelle
  imports Main "HOL-Library.Word"
begin

section \<open>Schema-validated request sections\<close>

text \<open>
  The schema is the validation library's object; the helpers only call its
  \<open>safeParse\<close> method and read three things from a failure: \<open>message\<close>,
  \<open>cause\<close> and (in the callers) \<open>issues\<close>. An issue is a field path, a problem code
  and a message. The \<open>cause\<close> of a JavaScript error is any value, in particular
  \<open>undefined\<close>.
\<close>

record issue =
  path :: "string list"
  code :: string
  issue_message :: string

datatype cause_value = Undefined | Issue_list "issue list" | Other_value string

record zod_error =
  message :: string
  issues :: "issue list"
  cause :: cause_value

text \<open>\<open>ZodSafeParseResult\<close>: \<open>{success: true, data}\<close> or \<open>{success: false, error}\<close>.\<close>

datatype 'a safe_parse_result = Success 'a | Failure zod_error

text \<open>The object built by \<open>new Error(message, {cause})\<close>.\<close>

record js_error =
  error_message :: string
  error_cause :: cause_value

text \<open>The third parameter, \<open>options?: {safe?: boolean}\<close>.\<close>

record options =
  safe :: "bool option"

text \<open>
  The part of the framework's request the helpers read: the header map, the route
  parameters, the query and the chunks the body stream delivers.
\<close>

record ('p, 'q) request =
  headers :: "string \<rightharpoonup> string"
  params :: 'p
  query :: 'q
  body_chunks :: "8 word list list"

text \<open>
  What a call returns: the overloads return either the parsed data or the whole
  parse result. A \<open>throw\<close> is the left summand.
\<close>

datatype 'a validated = Returned_data 'a | Returned_result "'a safe_parse_result"

text \<open>The test \<open>options?.safe\<close>: truthy only when options are given and \<open>safe\<close> is \<open>true\<close>.\<close>

fun options_safe :: "options option \<Rightarrow> bool" where
  "options_safe None = False"
| "options_safe (Some opts) = (case safe opts of None \<Rightarrow> False | Some b \<Rightarrow> b)"

definition readValidatedParams ::
  "('p, 'q) request \<Rightarrow> ('p \<Rightarrow> 'a safe_parse_result) \<Rightarrow> options option \<Rightarrow> js_error + 'a validated"
where
  "readValidatedParams req schema opts =
     (let result = schema (params req) in
      if options_safe opts then Inr (Returned_result result)
      else (case result of
              Failure err \<Rightarrow> Inl \<lparr>error_message = message err, error_cause = cause err\<rparr>
            | Success d \<Rightarrow> Inr (Returned_data d)))"

definition readValidatedQuery ::
  "('p, 'q) request \<Rightarrow> ('q \<Rightarrow> 'a safe_parse_result) \<Rightarrow> options option \<Rightarrow> js_error + 'a validated"
where
  "readValidatedQuery req schema opts =
     (let result = schema (query req) in
      if options_safe opts then Inr (Returned_result result)
      else (case result of
              Failure err \<Rightarrow> Inl \<lparr>error_message = message err, error_cause = cause err\<rparr>
            | Success d \<Rightarrow> Inr (Returned_data d)))"

section \<open>Multipart form data\<close>

text \<open>A \<open>Buffer\<close> is a sequence of bytes.\<close>

type_synonym buffer = "8 word list"

record MultipartFormData =
  name :: string
  filename :: string
  mimeType :: string
  buffer :: buffer

text \<open>
  \<open>charCodeAt\<close> gives the code of the character at an index, and \<open>NaN\<close> (here
  \<open>None\<close>) beyond the end of the string; \<open>startsWith\<close> compares a literal prefix.
\<close>

definition charCodeAt :: "string \<Rightarrow> nat \<Rightarrow> nat option" where
  "charCodeAt s i = (if i < length s then Some (of_char (s ! i)) else None)"

definition startsWith :: "string \<Rightarrow> string \<Rightarrow> bool" where
  "startsWith s p = (take (length p) s = p)"

text \<open>
  Both source files carry the same private \<open>getContentType\<close>. A header that is
  \<open>undefined\<close> or the empty string is falsy.
\<close>

definition getContentType :: "('p, 'q) request \<Rightarrow> string option" where
  "getContentType req =
     (case headers req ''content-type'' of
        None \<Rightarrow> None
      | Some contentType \<Rightarrow>
          if contentType = [] \<or> charCodeAt contentType 0 \<noteq> Some 109
             \<or> \<not> startsWith contentType ''multipart/form-data''
          then None else Some contentType)"

subsection \<open>Promises\<close>

text \<open>
  A value handed to \<open>reject\<close> is an \<open>Error\<close> instance or something else, which is
  all that \<open>instanceof Error\<close> asks. A promise is pending or settled; \<open>resolve\<close> and
  \<open>reject\<close> act on a pending promise only.
\<close>

datatype js_value = Error_object string | Non_error string

datatype 'a promise = Pending | Fulfilled 'a | Rejected js_value

definition resolve :: "'a \<Rightarrow> 'a promise \<Rightarrow> 'a promise" where
  "resolve v p = (case p of Pending \<Rightarrow> Fulfilled v | _ \<Rightarrow> p)"

definition reject :: "js_value \<Rightarrow> 'a promise \<Rightarrow> 'a promise" where
  "reject e p = (case p of Pending \<Rightarrow> Rejected e | _ \<Rightarrow> p)"

subsection \<open>The decoder's events\<close>

text \<open>
  The decoder is the external streaming parser. It announces a file part with a
  \<open>file\<close> event that hands over a new stream, the \<open>k\<close>-th announcement creating stream
  \<open>k\<close>; a stream then emits \<open>data\<close>, \<open>end\<close> and \<open>error\<close>; a non-file field is a \<open>field\<close>
  event; the decoder itself emits \<open>finish\<close> and \<open>error\<close>. The payload \<open>'f\<close> of the
  \<open>file\<close> event differs between the two decoders.
\<close>

datatype 'f event =
    File 'f
  | Field string string
  | Data nat buffer
  | End nat
  | Stream_error nat js_value
  | Finish
  | Decoder_error js_value

text \<open>busboy: \<open>(name, file, info)\<close>, with \<open>info = {filename, encoding, mimeType}\<close>.\<close>

record file_info =
  info_filename :: string
  info_encoding :: string
  info_mimeType :: string

type_synonym busboy_file = "string \<times> file_info"

text \<open>@fastify/busboy: \<open>(fieldname, stream, filename, transferEncoding, mimeType)\<close>.\<close>

type_synonym fastify_file = "string \<times> string \<times> string \<times> string"

text \<open>
  When the events come matters to promises. The events of one synchronous emission
  reach their listeners one after the other with nothing in between; when the
  emission is over the promise jobs queued so far run. A task of the event loop is a
  sequence of such emissions (the callback and the \<open>nextTick\<close> callbacks it leaves
  behind), and when the task is over Node looks for rejected promises that still have
  no handler. What a decoder does with a body is therefore a list of tasks, each a
  list of emissions, each a list of events.
\<close>

type_synonym 'f emission = "'f event list"

type_synonym 'f task = "'f emission list"

text \<open>
  A decoder is built from the request headers, which may throw, and then turns the
  chunks piped into it into its events.
\<close>

type_synonym 'f decoder = "(string \<rightharpoonup> string) \<Rightarrow> js_value + (buffer list \<Rightarrow> 'f task list)"

definition events :: "'f task list \<Rightarrow> 'f event list" where
  "events ts = concat (concat ts)"

subsection \<open>The state of a call\<close>

text \<open>
  The \<open>file\<close> callback's closure: the captured field name, file name and MIME type,
  the \<open>chunks\<close> array and the promise pushed onto \<open>promises\<close>.
\<close>

record file_part =
  part_name :: string
  part_filename :: string
  part_mimeType :: string
  chunks :: "buffer list"
  promise :: "MultipartFormData promise"

text \<open>
  One \<open>Promise.all(promises)\<close>, started by a \<open>finish\<close> event: the number of promises
  it was started over, on each of which it has a reaction; how many of them it still
  waits for; and its own promise.
\<close>

record join =
  parts :: nat
  remaining :: nat
  all_promise :: "MultipartFormData list promise"

text \<open>
  The promise jobs: the reaction of join \<open>j\<close> to a fulfilled part promise and to a part
  promise rejected with \<open>e\<close>; the callback \<open>(files) => resolve(files)\<close> of \<open>then\<close>; a
  rejection passing through that \<open>then\<close>, which has no callback for it; the callback
  of \<open>catch\<close>.
\<close>

datatype job =
    On_fulfilled nat
  | On_rejected nat js_value
  | Then_resolve "MultipartFormData list"
  | Pass_reject js_value
  | Catch js_value

text \<open>
  The state of one call: the \<open>promises\<close> array, the joins in the order they were
  started, the queue of promise jobs, the part promises rejected while they had no
  handler (in the order they were rejected), the promise the call returns, and the
  reason the process ended with, if it did.
\<close>

record parse_state =
  promises :: "file_part list"
  joins :: "join list"
  jobs :: "job list"
  unhandled :: "(nat \<times> js_value) list"
  outer :: "MultipartFormData list promise"
  ended :: "js_value option"

definition initial_state :: parse_state where
  "initial_state =
     \<lparr>promises = [], joins = [], jobs = [], unhandled = [], outer = Pending, ended = None\<rparr>"

definition new_part :: "string \<Rightarrow> string \<Rightarrow> string \<Rightarrow> file_part" where
  "new_part n f m =
     \<lparr>part_name = n, part_filename = f, part_mimeType = m, chunks = [], promise = Pending\<rparr>"

subsection \<open>The listeners\<close>

text \<open>The listeners of a part's stream: \<open>data\<close>, \<open>end\<close> and \<open>error\<close>.\<close>

definition on_data :: "buffer \<Rightarrow> file_part \<Rightarrow> file_part" where
  "on_data chunk l = l\<lparr>chunks := chunks l @ [chunk]\<rparr>"

definition on_end :: "file_part \<Rightarrow> file_part" where
  "on_end l =
     l\<lparr>promise :=
         resolve \<lparr>name = part_name l, filename = part_filename l, mimeType = part_mimeType l,
                  buffer = concat (chunks l)\<rparr> (promise l)\<rparr>"

definition on_error :: "js_value \<Rightarrow> file_part \<Rightarrow> file_part" where
  "on_error e l = l\<lparr>promise := reject e (promise l)\<rparr>"

text \<open>
  The joins that have a reaction on part promise \<open>k\<close>, and the job such a reaction
  gives for a settled promise.
\<close>

definition reacting :: "nat \<Rightarrow> parse_state \<Rightarrow> nat list" where
  "reacting k s = filter (\<lambda>j. k < parts (joins s ! j)) [0..<length (joins s)]"

definition element_job :: "nat \<Rightarrow> MultipartFormData promise \<Rightarrow> job list" where
  "element_job j p =
     (case p of
        Pending \<Rightarrow> []
      | Fulfilled v \<Rightarrow> [On_fulfilled j]
      | Rejected e \<Rightarrow> [On_rejected j e])"

text \<open>
  Part promise \<open>k\<close> has just become \<open>p\<close>: its reactions are queued, in the order they
  were attached; a rejection that finds no reaction is noted as unhandled.
\<close>

definition settled :: "nat \<Rightarrow> MultipartFormData promise \<Rightarrow> parse_state \<Rightarrow> parse_state" where
  "settled k p s =
     (case p of
        Rejected e \<Rightarrow>
          if reacting k s = [] then s\<lparr>unhandled := unhandled s @ [(k, e)]\<rparr>
          else s\<lparr>jobs := jobs s @ concat (map (\<lambda>j. element_job j p) (reacting k s))\<rparr>
      | _ \<Rightarrow> s\<lparr>jobs := jobs s @ concat (map (\<lambda>j. element_job j p) (reacting k s))\<rparr>)"

text \<open>An event of stream \<open>k\<close> reaches the listeners of that stream, if it exists.\<close>

definition on_stream :: "nat \<Rightarrow> (file_part \<Rightarrow> file_part) \<Rightarrow> parse_state \<Rightarrow> parse_state" where
  "on_stream k f s =
     (if k < length (promises s) then
        (let l = promises s ! k;
             s' = s\<lparr>promises := (promises s)[k := f l]\<rparr>
         in if promise l = Pending then settled k (promise (f l)) s' else s')
      else s)"

text \<open>
  The \<open>finish\<close> listener: \<open>Promise.all(promises)\<close> attaches a reaction to each promise
  of the array, which queues a job at once for a promise already settled and makes a
  rejected one handled; over an empty array it is fulfilled at once. Then \<open>then\<close> and
  \<open>catch\<close> attach their callbacks.
\<close>

definition on_finish :: "parse_state \<Rightarrow> parse_state" where
  "on_finish s =
     (let n = length (promises s); j = length (joins s) in
      s\<lparr>joins := joins s @
            [\<lparr>parts = n, remaining = n,
              all_promise = (if n = 0 then Fulfilled [] else Pending)\<rparr>],
        jobs := jobs s @ concat (map (\<lambda>l. element_job j (promise l)) (promises s))
                @ (if n = 0 then [Then_resolve []] else []),
        unhandled := filter (\<lambda>(i, e). \<not> i < n) (unhandled s)\<rparr>)"

text \<open>\<open>readMultipartFormData\<close>: the listeners on busboy's events.\<close>

fun read_listeners :: "busboy_file event \<Rightarrow> parse_state \<Rightarrow> parse_state" where
  "read_listeners (File (n, info)) s =
     s\<lparr>promises := promises s @ [new_part n (info_filename info) (info_mimeType info)]\<rparr>"
| "read_listeners (Field n v) s = s"
| "read_listeners (Data k chunk) s = on_stream k (on_data chunk) s"
| "read_listeners (End k) s = on_stream k on_end s"
| "read_listeners (Stream_error k e) s = on_stream k (on_error e) s"
| "read_listeners Finish s = on_finish s"
| "read_listeners (Decoder_error e) s = s\<lparr>outer := reject e (outer s)\<rparr>"

text \<open>\<open>getMultipartFormData\<close>: the listeners on @fastify/busboy's events.\<close>

fun get_listeners :: "fastify_file event \<Rightarrow> parse_state \<Rightarrow> parse_state" where
  "get_listeners (File (fieldname, fname, transferEncoding, mtype)) s =
     s\<lparr>promises := promises s @ [new_part fieldname fname mtype]\<rparr>"
| "get_listeners (Field n v) s = s"
| "get_listeners (Data k chunk) s = on_stream k (on_data chunk) s"
| "get_listeners (End k) s = on_stream k on_end s"
| "get_listeners (Stream_error k e) s = on_stream k (on_error e) s"
| "get_listeners Finish s = on_finish s"
| "get_listeners (Decoder_error e) s = s\<lparr>outer := reject e (outer s)\<rparr>"

subsection \<open>The promise jobs\<close>

text \<open>The \<open>catch\<close> callback of the \<open>finish\<close> listener.\<close>

definition catch_error :: "js_value \<Rightarrow> js_value" where
  "catch_error e =
     (case e of
        Error_object m \<Rightarrow> e
      | Non_error v \<Rightarrow> Error_object ''An error occurred while parsing multipart form data'')"

text \<open>The values of the fulfilled promises among some parts, in order.\<close>

definition fulfilled_values :: "file_part list \<Rightarrow> MultipartFormData list" where
  "fulfilled_values ps =
     concat (map (\<lambda>l. case promise l of Fulfilled v \<Rightarrow> [v] | _ \<Rightarrow> []) ps)"

text \<open>
  A join counts down as its promises are fulfilled and is fulfilled with their values
  when the count reaches zero; it is rejected by the first rejection it sees. A
  settled join queues the job of the callback attached to it.
\<close>

fun run_job :: "job \<Rightarrow> parse_state \<Rightarrow> parse_state" where
  "run_job (On_fulfilled j) s =
     (if j < length (joins s) then
        (let J = joins s ! j in
         if remaining J = 1 then
           (if all_promise J = Pending then
              (let files = fulfilled_values (take (parts J) (promises s)) in
               s\<lparr>joins := (joins s)[j := J\<lparr>remaining := 0, all_promise := Fulfilled files\<rparr>],
                 jobs := jobs s @ [Then_resolve files]\<rparr>)
            else s\<lparr>joins := (joins s)[j := J\<lparr>remaining := 0\<rparr>]\<rparr>)
         else s\<lparr>joins := (joins s)[j := J\<lparr>remaining := remaining J - 1\<rparr>]\<rparr>)
      else s)"
| "run_job (On_rejected j e) s =
     (if j < length (joins s) \<and> all_promise (joins s ! j) = Pending then
        s\<lparr>joins := (joins s)[j := (joins s ! j)\<lparr>all_promise := Rejected e\<rparr>],
          jobs := jobs s @ [Pass_reject e]\<rparr>
      else s)"
| "run_job (Then_resolve files) s = s\<lparr>outer := resolve files (outer s)\<rparr>"
| "run_job (Pass_reject e) s = s\<lparr>jobs := jobs s @ [Catch e]\<rparr>"
| "run_job (Catch e) s = s\<lparr>outer := reject (catch_error e) (outer s)\<rparr>"

text \<open>The queue is run first in, first out, until it is empty.\<close>

fun weight :: "job \<Rightarrow> nat" where
  "weight (On_fulfilled j) = 2"
| "weight (On_rejected j e) = 3"
| "weight (Then_resolve files) = 1"
| "weight (Pass_reject e) = 2"
| "weight (Catch e) = 1"

function drain :: "parse_state \<Rightarrow> parse_state" where
  "drain s = (case jobs s of [] \<Rightarrow> s | job # rest \<Rightarrow> drain (run_job job (s\<lparr>jobs := rest\<rparr>)))"
  by pat_completeness auto
termination
proof (relation "measure (\<lambda>s. sum_list (map weight (jobs s)))")
  show "wf (measure (\<lambda>s. sum_list (map weight (jobs s))))" by simp
next
  fix s :: parse_state and job rest
  assume "jobs s = job # rest"
  then show "(run_job job (s\<lparr>jobs := rest\<rparr>), s) \<in> measure (\<lambda>s. sum_list (map weight (jobs s)))"
    by (cases job) (auto simp: Let_def)
qed

declare drain.simps [simp del]

subsection \<open>A run\<close>

text \<open>
  When a task is over, a part promise rejected without a handler and still without
  one ends the process: Node's default for an unhandled rejection.
\<close>

definition end_of_task :: "parse_state \<Rightarrow> parse_state" where
  "end_of_task s = (case unhandled s of [] \<Rightarrow> s | (k, e) # rest \<Rightarrow> s\<lparr>ended := Some e\<rparr>)"

definition read_emission :: "busboy_file emission \<Rightarrow> parse_state \<Rightarrow> parse_state" where
  "read_emission em s = drain (foldl (\<lambda>s e. read_listeners e s) s em)"

definition read_task :: "busboy_file task \<Rightarrow> parse_state \<Rightarrow> parse_state" where
  "read_task t s =
     (if ended s \<noteq> None then s else end_of_task (foldl (\<lambda>s em. read_emission em s) s t))"

definition read_run :: "busboy_file task list \<Rightarrow> parse_state" where
  "read_run ts = foldl (\<lambda>s t. read_task t s) initial_state ts"

definition get_emission :: "fastify_file emission \<Rightarrow> parse_state \<Rightarrow> parse_state" where
  "get_emission em s = drain (foldl (\<lambda>s e. get_listeners e s) s em)"

definition get_task :: "fastify_file task \<Rightarrow> parse_state \<Rightarrow> parse_state" where
  "get_task t s =
     (if ended s \<noteq> None then s else end_of_task (foldl (\<lambda>s em. get_emission em s) s t))"

definition get_run :: "fastify_file task list \<Rightarrow> parse_state" where
  "get_run ts = foldl (\<lambda>s t. get_task t s) initial_state ts"

text \<open>
  What the caller that awaits the call sees: \<open>null\<close>, the files, a rejection, nothing
  when the returned promise is still pending after the decoder's last event, or the
  process ending under it. The second component of a call's result tells whether the
  request was piped into the decoder.
\<close>

datatype outcome =
    Null
  | Files "MultipartFormData list"
  | Thrown js_value
  | Never
  | Process_ended js_value

definition awaited :: "parse_state \<Rightarrow> outcome" where
  "awaited s =
     (case ended s of
        Some e \<Rightarrow> Process_ended e
      | None \<Rightarrow>
          (case outer s of
             Pending \<Rightarrow> Never
           | Fulfilled files \<Rightarrow> Files files
           | Rejected e \<Rightarrow> Thrown e))"

definition readMultipartFormData ::
  "busboy_file decoder \<Rightarrow> ('p, 'q) request \<Rightarrow> outcome \<times> bool" where
  "readMultipartFormData busboy req =
     (case getContentType req of
        None \<Rightarrow> (Null, False)
      | Some contentType \<Rightarrow>
          (case busboy (headers req) of
             Inl e \<Rightarrow> (Thrown e, False)
           | Inr bb \<Rightarrow> (awaited (read_run (bb (body_chunks req))), True)))"

definition getMultipartFormData ::
  "fastify_file decoder \<Rightarrow> ('p, 'q) request \<Rightarrow> outcome \<times> bool" where
  "getMultipartFormData Busboy req =
     (case getContentType req of
        None \<Rightarrow> (Null, False)
      | Some contentType \<Rightarrow>
          (case Busboy ((headers req)(''content-type'' \<mapsto> contentType)) of
             Inl e \<Rightarrow> (Thrown e, False)
           | Inr busboy \<Rightarrow> (awaited (get_run (busboy (body_chunks req))), True)))"

subsection \<open>Reading a run off the decoder's events\<close>

text \<open>
  The file parts the decoder announced, in order, and the chunks it delivered on
  stream \<open>k\<close>, in order.
\<close>

fun announced :: "'f event list \<Rightarrow> 'f list" where
  "announced [] = []"
| "announced (File f # es) = f # announced es"
| "announced (e # es) = announced es"

fun received :: "nat \<Rightarrow> 'f event list \<Rightarrow> buffer list" where
  "received k [] = []"
| "received k (Data j chunk # es) = (if j = k then chunk # received k es else received k es)"
| "received k (e # es) = received k es"

text \<open>The events that close stream \<open>k\<close>, and whether the stream is open after a history.\<close>

fun closes :: "nat \<Rightarrow> 'f event \<Rightarrow> bool" where
  "closes k (End j) = (j = k)"
| "closes k (Stream_error j e) = (j = k)"
| "closes k e = False"

definition live :: "nat \<Rightarrow> 'f event list \<Rightarrow> bool" where
  "live k pre = (k < length (announced pre) \<and> \<not> list_ex (closes k) pre)"

text \<open>
  What the code relies on from a decoder. Streams: an event of a stream comes after
  the \<open>file\<close> event that created the stream and before the stream's \<open>end\<close> or \<open>error\<close>,
  of which there is at most one. Decoder: \<open>finish\<close> says the whole body is decoded,
  so no file part is announced and no decoder error reported after it.
\<close>

fun stream_allowed :: "'f event list \<Rightarrow> 'f event \<Rightarrow> bool" where
  "stream_allowed pre (Data k chunk) = live k pre"
| "stream_allowed pre (End k) = live k pre"
| "stream_allowed pre (Stream_error k e) = live k pre"
| "stream_allowed pre e = True"

fun finish_allowed :: "'f event list \<Rightarrow> 'f event \<Rightarrow> bool" where
  "finish_allowed pre (File f) = (Finish \<notin> set pre)"
| "finish_allowed pre (Decoder_error e) = (Finish \<notin> set pre)"
| "finish_allowed pre e = True"

fun follows :: "('f event list \<Rightarrow> 'f event \<Rightarrow> bool) \<Rightarrow> 'f event list \<Rightarrow> 'f event list \<Rightarrow> bool" where
  "follows ok pre [] = True"
| "follows ok pre (e # es) = (ok pre e \<and> follows ok (pre @ [e]) es)"

definition stream_protocol :: "'f event list \<Rightarrow> bool" where
  "stream_protocol evs = follows stream_allowed [] evs"

definition decoder_protocol :: "'f event list \<Rightarrow> bool" where
  "decoder_protocol evs = (stream_protocol evs \<and> follows finish_allowed [] evs)"

text \<open>
  How each \<open>file\<close> callback reads the field name, the file name and the MIME type off
  its arguments, and the record built from them and the part's bytes.
\<close>

fun read_args :: "busboy_file \<Rightarrow> string \<times> string \<times> string" where
  "read_args (n, info) = (n, info_filename info, info_mimeType info)"

fun get_args :: "fastify_file \<Rightarrow> string \<times> string \<times> string" where
  "get_args (fieldname, fname, transferEncoding, mtype) = (fieldname, fname, mtype)"

definition record_of :: "('f \<Rightarrow> string \<times> string \<times> string) \<Rightarrow> 'f \<Rightarrow> buffer \<Rightarrow> MultipartFormData" where
  "record_of args f b =
     (case args f of (n, fname, mtype) \<Rightarrow>
        \<lparr>name = n, filename = fname, mimeType = mtype, buffer = b\<rparr>)"

text \<open>
  One record per announced file part, in the order of the announcements, each with
  all the bytes delivered on the part's stream.
\<close>

definition records :: "('f \<Rightarrow> string \<times> string \<times> string) \<Rightarrow> 'f event list \<Rightarrow> MultipartFormData list" where
  "records args evs =
     map (\<lambda>k. record_of args (announced evs ! k) (concat (received k evs)))
       [0..<length (announced evs)]"

subsection \<open>Reasoning about both sets of listeners at once\<close>

text \<open>
  The two sets of listeners differ in how the \<open>file\<close> callback reads its arguments
  only; \<open>listeners\<close> is their common shape, and \<open>run\<close> the run it gives.
\<close>

fun listeners :: "('f \<Rightarrow> string \<times> string \<times> string) \<Rightarrow> 'f event \<Rightarrow> parse_state \<Rightarrow> parse_state" where
  "listeners args (File f) s =
     s\<lparr>promises := promises s @ [case args f of (n, fname, mtype) \<Rightarrow> new_part n fname mtype]\<rparr>"
| "listeners args (Field n v) s = s"
| "listeners args (Data k chunk) s = on_stream k (on_data chunk) s"
| "listeners args (End k) s = on_stream k on_end s"
| "listeners args (Stream_error k e) s = on_stream k (on_error e) s"
| "listeners args Finish s = on_finish s"
| "listeners args (Decoder_error e) s = s\<lparr>outer := reject e (outer s)\<rparr>"

definition emission :: "('f \<Rightarrow> string \<times> string \<times> string) \<Rightarrow> 'f emission \<Rightarrow> parse_state \<Rightarrow> parse_state" where
  "emission args em s = drain (foldl (\<lambda>s e. listeners args e s) s em)"

definition task :: "('f \<Rightarrow> string \<times> string \<times> string) \<Rightarrow> 'f task \<Rightarrow> parse_state \<Rightarrow> parse_state" where
  "task args t s =
     (if ended s \<noteq> None then s else end_of_task (foldl (\<lambda>s em. emission args em s) s t))"

definition run :: "('f \<Rightarrow> string \<times> string \<times> string) \<Rightarrow> 'f task list \<Rightarrow> parse_state" where
  "run args ts = foldl (\<lambda>s t. task args t s) initial_state ts"

text \<open>
  The states a call passes through, each with the events delivered so far: listeners
  run, jobs run, tasks end.
\<close>

inductive reaches :: "('f \<Rightarrow> string \<times> string \<times> string) \<Rightarrow> 'f event list \<Rightarrow> parse_state \<Rightarrow> bool"
  for args :: "'f \<Rightarrow> string \<times> string \<times> string" where
  start: "reaches args [] initial_state"
| event: "reaches args evs s \<Longrightarrow> reaches args (evs @ [e]) (listeners args e s)"
| job: "reaches args evs s \<Longrightarrow> jobs s = j # rest \<Longrightarrow> reaches args evs (run_job j (s\<lparr>jobs := rest\<rparr>))"
| task_end: "reaches args evs s \<Longrightarrow> reaches args evs (end_of_task s)"

text \<open>
  The state stream \<open>k\<close>'s promise is in after a history, read off the first event that
  closed the stream, and what the listeners of an announced part hold.
\<close>

definition status :: "('f \<Rightarrow> string \<times> string \<times> string) \<Rightarrow> nat \<Rightarrow> 'f event list \<Rightarrow> MultipartFormData promise" where
  "status args k evs =
     (case find (closes k) evs of
        Some (End j) \<Rightarrow> Fulfilled (record_of args (announced evs ! k) (concat (received k evs)))
      | Some (Stream_error j x) \<Rightarrow> Rejected x
      | _ \<Rightarrow> Pending)"

definition part_ok :: "('f \<Rightarrow> string \<times> string \<times> string) \<Rightarrow> 'f event list \<Rightarrow> nat \<Rightarrow> file_part \<Rightarrow> bool" where
  "part_ok args evs k l =
     ((part_name l, part_filename l, part_mimeType l) = args (announced evs ! k) \<and>
      chunks l = received k evs \<and> promise l = status args k evs)"

text \<open>
  What holds of every state of a call. A join is over promises that exist. It waits
  for as many promises as are not fulfilled among its own or have their job still
  queued. A queued job is of a join that exists, and a queued \<open>resolve(files)\<close> comes
  from a join fulfilled with these files. A fulfilled join holds the values of its
  promises, all of them fulfilled. The call's promise is fulfilled by a fulfilled join
  only. A join that waits for nothing is settled, and a fulfilled join has resolved
  the call's promise or is about to.
\<close>

definition fulfilled :: "'a promise \<Rightarrow> bool" where
  "fulfilled p = (case p of Fulfilled v \<Rightarrow> True | _ \<Rightarrow> False)"

definition waiting :: "nat \<Rightarrow> file_part list \<Rightarrow> nat" where
  "waiting n ps = length (filter (\<lambda>l. \<not> fulfilled (promise l)) (take n ps))"

definition joins_exist :: "parse_state \<Rightarrow> bool" where
  "joins_exist s = (\<forall>j<length (joins s). parts (joins s ! j) \<le> length (promises s))"

definition counts_right :: "parse_state \<Rightarrow> bool" where
  "counts_right s =
     (\<forall>j<length (joins s).
        remaining (joins s ! j)
          = waiting (parts (joins s ! j)) (promises s) + count_list (jobs s) (On_fulfilled j))"

definition jobs_known :: "parse_state \<Rightarrow> bool" where
  "jobs_known s =
     ((\<forall>j. On_fulfilled j \<in> set (jobs s) \<longrightarrow> j < length (joins s)) \<and>
      (\<forall>fs. Then_resolve fs \<in> set (jobs s)
         \<longrightarrow> (\<exists>j<length (joins s). all_promise (joins s ! j) = Fulfilled fs)))"

definition values_right :: "parse_state \<Rightarrow> bool" where
  "values_right s =
     (\<forall>j<length (joins s). \<forall>fs. all_promise (joins s ! j) = Fulfilled fs
        \<longrightarrow> map promise (take (parts (joins s ! j)) (promises s)) = map Fulfilled fs)"

definition outer_backed :: "parse_state \<Rightarrow> bool" where
  "outer_backed s =
     (\<forall>fs. outer s = Fulfilled fs
        \<longrightarrow> (\<exists>j<length (joins s). all_promise (joins s ! j) = Fulfilled fs))"

definition settles :: "parse_state \<Rightarrow> bool" where
  "settles s =
     ((\<forall>j<length (joins s). remaining (joins s ! j) = 0 \<longrightarrow> all_promise (joins s ! j) \<noteq> Pending) \<and>
      (\<forall>j<length (joins s). \<forall>fs. all_promise (joins s ! j) = Fulfilled fs
         \<longrightarrow> outer s \<noteq> Pending \<or> Then_resolve fs \<in> set (jobs s)))"

definition consistent :: "parse_state \<Rightarrow> bool" where
  "consistent s =
     (joins_exist s \<and> counts_right s \<and> jobs_known s \<and> values_right s \<and> outer_backed s
      \<and> settles s)"

text \<open>A history in which no error is reported, and a state in which nothing has been rejected.\<close>

fun quiet :: "'f event \<Rightarrow> bool" where
  "quiet (Stream_error k e) = False"
| "quiet (Decoder_error e) = False"
| "quiet e = True"

fun harmless :: "job \<Rightarrow> bool" where
  "harmless (On_fulfilled j) = True"
| "harmless (Then_resolve fs) = True"
| "harmless job = False"

definition clean :: "parse_state \<Rightarrow> bool" where
  "clean s =
     ((\<forall>k<length (promises s). \<forall>e. promise (promises s ! k) \<noteq> Rejected e) \<and>
      (\<forall>j<length (joins s). \<forall>e. all_promise (joins s ! j) \<noteq> Rejected e) \<and>
      (\<forall>e. outer s \<noteq> Rejected e) \<and> unhandled s = [] \<and> ended s = None \<and>
      (\<forall>job\<in>set (jobs s). harmless job))"

text \<open>
  The same file part as the one decoder and as the other announces it, and a decoder
  of the one kind seen as a decoder of the other: the same construction error, the
  same events at the same times.
\<close>

fun to_fastify :: "busboy_file \<Rightarrow> fastify_file" where
  "to_fastify (n, info) = (n, info_filename info, info_encoding info, info_mimeType info)"

fun to_busboy :: "fastify_file \<Rightarrow> busboy_file" where
  "to_busboy (fieldname, fname, transferEncoding, mtype) =
     (fieldname, \<lparr>info_filename = fname, info_encoding = transferEncoding, info_mimeType = mtype\<rparr>)"

definition as_fastify :: "busboy_file decoder \<Rightarrow> fastify_file decoder" where
  "as_fastify busboy h =
     (case busboy h of
        Inl e \<Rightarrow> Inl e
      | Inr bb \<Rightarrow> Inr (\<lambda>body. map (map (map (map_event to_fastify))) (bb body)))"

definition as_busboy :: "fastify_file decoder \<Rightarrow> busboy_file decoder" where
  "as_busboy Busboy h =
     (case Busboy h of
        Inl e \<Rightarrow> Inl e
      | Inr fb \<Rightarrow> Inr (\<lambda>body. map (map (map (map_event to_busboy))) (fb body)))"

section \<open>Server-sent events\<close>

text \<open>
  The response is the framework's object; the channel only calls it. It is modelled by
  the calls it received, in order, whether it has the optional \<open>flushHeaders\<close> and
  \<open>flush\<close> methods, and its \<open>closed\<close> flag, which the transport sets on its own.
\<close>

datatype res_call =
    SetHeader string string
  | FlushHeaders
  | Write string string
  | Flush
  | End_call "string list"

record response =
  calls :: "res_call list"
  has_flushHeaders :: bool
  has_flush :: bool
  res_closed :: bool

definition call :: "res_call \<Rightarrow> response \<Rightarrow> response" where
  "call c res = res\<lparr>calls := calls res @ [c]\<rparr>"

text \<open>\<open>res.flushHeaders?.()\<close> and \<open>res.flush?.()\<close>.\<close>

definition flushHeaders_if_present :: "response \<Rightarrow> response" where
  "flushHeaders_if_present res = (if has_flushHeaders res then call FlushHeaders res else res)"

definition flush_if_present :: "response \<Rightarrow> response" where
  "flush_if_present res = (if has_flush res then call Flush res else res)"

text \<open>The returned object's data field; its three functions are \<open>push\<close>, \<open>pushComment\<close> and \<open>close\<close> below.\<close>

record sse =
  closed :: bool

definition createServerSentEvent :: "response \<Rightarrow> response \<times> sse" where
  "createServerSentEvent res =
     (let res1 = call (SetHeader ''Content-Type'' ''text/event-stream'') res;
          res2 = call (SetHeader ''Cache-Control'' ''no-cache'') res1;
          res3 = call (SetHeader ''Connection'' ''keep-alive'') res2;
          res4 = call (SetHeader ''X-Accel-Buffering'' ''no'') res3;
          res5 = flushHeaders_if_present res4
      in (res5, \<lparr>closed = res_closed res5\<rparr>))"

definition push :: "string \<Rightarrow> response \<Rightarrow> response" where
  "push chunk res = flush_if_present (call (Write chunk ''utf8'') res)"

text \<open>\<open>split('\n')\<close> and \<open>join('\n')\<close>.\<close>

fun split_newline :: "string \<Rightarrow> string list" where
  "split_newline [] = [[]]"
| "split_newline (c # cs) =
     (if c = CHR 0x0A then [] # split_newline cs
      else (case split_newline cs of [] \<Rightarrow> [[c]] | l # ls \<Rightarrow> (c # l) # ls))"

fun join_newline :: "string list \<Rightarrow> string" where
  "join_newline [] = []"
| "join_newline [l] = l"
| "join_newline (l # ls) = l @ CHR 0x0A # join_newline ls"

definition pushComment :: "string \<Rightarrow> response \<Rightarrow> response" where
  "pushComment chunk res =
     (let comment =
            (if chunk \<noteq> [] then join_newline (map (\<lambda>line. '': '' @ line) (split_newline chunk))
             else '':'') @ [CHR 0x0A, CHR 0x0A]
      in flush_if_present (call (Write comment ''utf8'') res))"

text \<open>\<open>close\<close> is \<open>res.end\<close> bound to the response: it passes its arguments on.\<close>

definition close :: "string list \<Rightarrow> response \<Rightarrow> response" where
  "close args res = call (End_call args) res"

text \<open>
  A channel in use: the response and the object the caller holds. The caller pushes,
  comments and closes; the transport changes its own \<open>closed\<close> flag.
\<close>

record channel =
  transport :: response
  handle :: sse

datatype action =
    Push string
  | PushComment string
  | Close "string list"
  | Transport_closed bool

definition opened :: "response \<Rightarrow> channel" where
  "opened res = (case createServerSentEvent res of (res', obj) \<Rightarrow> \<lparr>transport = res', handle = obj\<rparr>)"

fun act :: "action \<Rightarrow> channel \<Rightarrow> channel" where
  "act (Push chunk) ch = ch\<lparr>transport := push chunk (transport ch)\<rparr>"
| "act (PushComment chunk) ch = ch\<lparr>transport := pushComment chunk (transport ch)\<rparr>"
| "act (Close args) ch = ch\<lparr>transport := close args (transport ch)\<rparr>"
| "act (Transport_closed b) ch = ch\<lparr>transport := (transport ch)\<lparr>res_closed := b\<rparr>\<rparr>"

definition acts :: "action list \<Rightarrow> channel \<Rightarrow> channel" where
  "acts as ch = foldl (\<lambda>c a. act a c) ch as"

section \<open>Example inputs\<close>

text \<open>A query schema that accepts the page \<open>1\<close> only, and the failure it reports otherwise.\<close>

definition page_error :: zod_error where
  "page_error =
     \<lparr>message = ''Invalid input: expected number'',
      issues = [\<lparr>path = [''page''], code = ''invalid_type'',
                 issue_message = ''Invalid input: expected number''\<rparr>],
      cause = Undefined\<rparr>"

definition page_schema :: "(string \<rightharpoonup> string) \<Rightarrow> nat safe_parse_result" where
  "page_schema q = (if q ''page'' = Some ''1'' then Success 1 else Failure page_error)"

definition page_request :: "string \<Rightarrow> (string \<rightharpoonup> string, string \<rightharpoonup> string) request" where
  "page_request v =
     \<lparr>headers = Map.empty, params = [''page'' \<mapsto> v], query = [''page'' \<mapsto> v], body_chunks = []\<rparr>"

text \<open>An upload request, and a request with a JSON body.\<close>

definition upload_request :: "(unit, unit) request" where
  "upload_request =
     \<lparr>headers = [''content-type'' \<mapsto> ''multipart/form-data; boundary=----testboundary''],
      params = (), query = (), body_chunks = []\<rparr>"

definition json_request :: "(unit, unit) request" where
  "json_request =
     \<lparr>headers = [''content-type'' \<mapsto> ''application/json''],
      params = (), query = (), body_chunks = []\<rparr>"

text \<open>
  A body with one non-file field and two file parts whose streams overlap, the first
  holding the bytes \<open>00 FF 0A 0D\<close> delivered in two chunks; the decoder works through
  it in four tasks.
\<close>

definition part_a :: busboy_file where
  "part_a = (''bin'', \<lparr>info_filename = ''data.bin'', info_encoding = ''7bit'',
                       info_mimeType = ''application/octet-stream''\<rparr>)"

definition part_b :: busboy_file where
  "part_b = (''doc'', \<lparr>info_filename = ''b.json'', info_encoding = ''7bit'',
                       info_mimeType = ''application/json''\<rparr>)"

definition mixed_tasks :: "busboy_file task list" where
  "mixed_tasks =
     [[[Field ''text'' ''some value'', File part_a], [Data 0 [0x00, 0xFF]]],
      [[File part_b, Data 1 [0x7B, 0x7D]], [Data 0 [0x0A, 0x0D]], [End 1]],
      [[Finish]],
      [[End 0]]]"

definition mixed_busboy :: "busboy_file decoder" where
  "mixed_busboy h = Inr (\<lambda>body. mixed_tasks)"

definition mixed_files :: "MultipartFormData list" where
  "mixed_files =
     [\<lparr>name = ''bin'', filename = ''data.bin'', mimeType = ''application/octet-stream'',
       buffer = [0x00, 0xFF, 0x0A, 0x0D]\<rparr>,
      \<lparr>name = ''doc'', filename = ''b.json'', mimeType = ''application/json'',
       buffer = [0x7B, 0x7D]\<rparr>]"

text \<open>
  A file part whose stream fails, the decoder going on to finish: once with every
  event in a task of its own, once with all of them in one emission.
\<close>

definition failing_tasks :: "busboy_file task list" where
  "failing_tasks =
     [[[File part_a]], [[Data 0 [0x00]]], [[Stream_error 0 (Non_error ''reset'')]], [[Finish]]]"

definition failing_busboy :: "busboy_file decoder" where
  "failing_busboy h = Inr (\<lambda>body. failing_tasks)"

definition failing_at_once :: "busboy_file decoder" where
  "failing_at_once h = Inr (\<lambda>body. [concat failing_tasks])"

text \<open>A response with both optional methods, not yet closed.\<close>

definition fresh_response :: response where
  "fresh_response = \<lparr>calls = [], has_flushHeaders = True, has_flush = True, res_closed = False\<rparr>"

section \<open>Validation: what is returned and what is raised\<close>

text \<open>
  C1, as the code has it. When the schema rejects the section, a call without
  \<open>safe: true\<close> raises an error that carries the failure's \<open>message\<close> and the
  failure's own \<open>cause\<close> property; a call with \<open>safe: true\<close> returns the failed parse
  result and raises nothing. \<open>options?.safe\<close> holds exactly when options are given and
  \<open>safe\<close> is \<open>true\<close>. The same for the route parameters.
\<close>

theorem rejected_input_raises_or_returns:
  "(schema_q (query req) = Failure err \<longrightarrow>
      readValidatedQuery req schema_q opts =
        (if options_safe opts then Inr (Returned_result (Failure err))
         else Inl \<lparr>error_message = message err, error_cause = cause err\<rparr>))
   \<and> (schema_p (params req) = Failure err' \<longrightarrow>
      readValidatedParams req schema_p opts =
        (if options_safe opts then Inr (Returned_result (Failure err'))
         else Inl \<lparr>error_message = message err', error_cause = cause err'\<rparr>))
   \<and> options_safe opts = (\<exists>v. opts = Some v \<and> safe v = Some True)"
  by (cases opts) (auto simp: readValidatedQuery_def readValidatedParams_def split: option.splits)

theorem rejected_input_raises_or_returns_witness:
  "readValidatedQuery (page_request ''abc'') page_schema None
     = Inl \<lparr>error_message = ''Invalid input: expected number'', error_cause = Undefined\<rparr>
   \<and> readValidatedParams (page_request ''abc'') page_schema (Some \<lparr>safe = Some True\<rparr>)
     = Inr (Returned_result (Failure page_error))"
proof -
  have q: "page_schema (query (page_request ''abc'')) = Failure page_error"
    and p: "page_schema (params (page_request ''abc'')) = Failure page_error"
    by (simp_all add: page_schema_def page_request_def)
  from rejected_input_raises_or_returns[of page_schema "page_request ''abc''" page_error None
      page_schema page_error] q
  have 1: "readValidatedQuery (page_request ''abc'') page_schema None
     = Inl \<lparr>error_message = ''Invalid input: expected number'', error_cause = Undefined\<rparr>"
    by (simp add: page_error_def)
  from rejected_input_raises_or_returns[of page_schema "page_request ''abc''" page_error
      "Some \<lparr>safe = Some True\<rparr>" page_schema page_error] p
  have 2: "readValidatedParams (page_request ''abc'') page_schema (Some \<lparr>safe = Some True\<rparr>)
     = Inr (Returned_result (Failure page_error))"
    by simp
  from 1 2 show ?thesis by simp
qed

text \<open>
  C1, as it is worded, asks for the issue list as the cause. The error raised for a
  rejected query whose failure has the issue list \<open>issues page_error\<close> and no cause of
  its own carries \<open>undefined\<close>, not that list.
\<close>

theorem cause_is_not_issue_list_counterexample:
  "page_schema (query (page_request ''abc'')) = Failure page_error
   \<and> readValidatedQuery (page_request ''abc'') page_schema None
       = Inl \<lparr>error_message = message page_error, error_cause = Undefined\<rparr>
   \<and> readValidatedQuery (page_request ''abc'') page_schema None
       \<noteq> Inl \<lparr>error_message = message page_error, error_cause = Issue_list (issues page_error)\<rparr>"
  by (simp add: readValidatedQuery_def page_schema_def page_request_def page_error_def)

text \<open>
  C2. When the schema accepts the section, a call without \<open>safe: true\<close> returns
  exactly the value the schema's parse produced, and a call with \<open>safe: true\<close> returns
  the successful parse result carrying that value.
\<close>

theorem accepted_input_is_returned:
  "(schema_q (query req) = Success d \<longrightarrow>
      readValidatedQuery req schema_q opts =
        (if options_safe opts then Inr (Returned_result (Success d)) else Inr (Returned_data d)))
   \<and> (schema_p (params req) = Success d' \<longrightarrow>
      readValidatedParams req schema_p opts =
        (if options_safe opts then Inr (Returned_result (Success d')) else Inr (Returned_data d')))"
  by (auto simp: readValidatedQuery_def readValidatedParams_def)

theorem accepted_input_is_returned_witness:
  "readValidatedQuery (page_request ''1'') page_schema (Some \<lparr>safe = None\<rparr>) = Inr (Returned_data 1)
   \<and> readValidatedParams (page_request ''1'') page_schema (Some \<lparr>safe = Some True\<rparr>)
     = Inr (Returned_result (Success 1))"
proof -
  have q: "page_schema (query (page_request ''1'')) = Success 1"
    and p: "page_schema (params (page_request ''1'')) = Success 1"
    by (simp_all add: page_schema_def page_request_def)
  from accepted_input_is_returned[of page_schema "page_request ''1''" 1 "Some \<lparr>safe = None\<rparr>"
      page_schema 1] q
  have 1: "readValidatedQuery (page_request ''1'') page_schema (Some \<lparr>safe = None\<rparr>) = Inr (Returned_data 1)"
    by simp
  from accepted_input_is_returned[of page_schema "page_request ''1''" 1
      "Some \<lparr>safe = Some True\<rparr>" page_schema 1] p
  have 2: "readValidatedParams (page_request ''1'') page_schema (Some \<lparr>safe = Some True\<rparr>)
     = Inr (Returned_result (Success 1))"
    by simp
  from 1 2 show ?thesis by simp
qed

section \<open>Multipart: applicability\<close>

text \<open>
  \<open>startsWith\<close> is the literal prefix test, and a string with the prefix
  \<open>multipart/form-data\<close> is not empty and starts with the character of code 109: the
  first two tests of \<open>getContentType\<close> never decide.
\<close>

lemma startsWith_iff: "startsWith s p \<longleftrightarrow> (\<exists>rest. s = p @ rest)"
  unfolding startsWith_def by (metis append_eq_conv_conj append_take_drop_id)

lemma getContentType_prefix:
  "getContentType req =
     (case headers req ''content-type'' of
        None \<Rightarrow> None
      | Some ct \<Rightarrow> if startsWith ct ''multipart/form-data'' then Some ct else None)"
proof -
  have "ct \<noteq> [] \<and> charCodeAt ct 0 = Some 109" if "startsWith ct ''multipart/form-data''" for ct
  proof -
    from that obtain rest where "ct = ''multipart/form-data'' @ rest"
      unfolding startsWith_iff by blast
    then show ?thesis by (simp add: charCodeAt_def)
  qed
  then show ?thesis
    by (auto simp: getContentType_def split: option.splits)
qed

lemma headers_update:
  "getContentType req = Some ct \<Longrightarrow> (headers req)(''content-type'' \<mapsto> ct) = headers req"
  by (auto simp: getContentType_def split: option.splits if_splits)

lemma awaited_not_Null: "awaited s \<noteq> Null"
  by (simp add: awaited_def split: option.splits promise.splits)

text \<open>
  C3. A request without a content-type header, or with one that does not begin with
  \<open>multipart/form-data\<close>, gets \<open>null\<close> from either extractor, and the request is not
  piped into a decoder. With a header that begins with that prefix either extractor
  hands the headers to its decoder and, unless building the decoder throws, pipes the
  request into it; the result is never \<open>null\<close>. The decision is the prefix test
  alone: testing the first character's code changes nothing.
\<close>

theorem applicability:
  "(headers req ''content-type'' = None
      \<or> (\<exists>ct. headers req ''content-type'' = Some ct \<and> \<not> (\<exists>rest. ct = ''multipart/form-data'' @ rest))
     \<longrightarrow> readMultipartFormData busboy req = (Null, False)
       \<and> getMultipartFormData Busboy req = (Null, False))
   \<and> (headers req ''content-type'' = Some (''multipart/form-data'' @ rest)
     \<longrightarrow> readMultipartFormData busboy req =
           (case busboy (headers req) of
              Inl e \<Rightarrow> (Thrown e, False)
            | Inr bb \<Rightarrow> (awaited (read_run (bb (body_chunks req))), True))
       \<and> getMultipartFormData Busboy req =
           (case Busboy (headers req) of
              Inl e \<Rightarrow> (Thrown e, False)
            | Inr fb \<Rightarrow> (awaited (get_run (fb (body_chunks req))), True))
       \<and> fst (readMultipartFormData busboy req) \<noteq> Null
       \<and> fst (getMultipartFormData Busboy req) \<noteq> Null)
   \<and> getContentType req =
       (case headers req ''content-type'' of
          None \<Rightarrow> None
        | Some ct \<Rightarrow> if \<exists>rest. ct = ''multipart/form-data'' @ rest then Some ct else None)"
proof (intro conjI impI)
  assume no: "headers req ''content-type'' = None
      \<or> (\<exists>ct. headers req ''content-type'' = Some ct \<and> \<not> (\<exists>rest. ct = ''multipart/form-data'' @ rest))"
  then have "getContentType req = None"
    by (auto simp: getContentType_prefix startsWith_iff)
  then show "readMultipartFormData busboy req = (Null, False)"
    and "getMultipartFormData Busboy req = (Null, False)"
    by (simp_all add: readMultipartFormData_def getMultipartFormData_def)
next
  assume h: "headers req ''content-type'' = Some (''multipart/form-data'' @ rest)"
  then have g: "getContentType req = Some (''multipart/form-data'' @ rest)"
    unfolding getContentType_prefix startsWith_iff by auto
  from headers_update[OF g]
  have u: "(headers req)(''content-type'' \<mapsto> ''multipart/form-data'' @ rest) = headers req" .
  show r: "readMultipartFormData busboy req =
           (case busboy (headers req) of
              Inl e \<Rightarrow> (Thrown e, False)
            | Inr bb \<Rightarrow> (awaited (read_run (bb (body_chunks req))), True))"
    using g by (simp add: readMultipartFormData_def)
  show gt: "getMultipartFormData Busboy req =
           (case Busboy (headers req) of
              Inl e \<Rightarrow> (Thrown e, False)
            | Inr fb \<Rightarrow> (awaited (get_run (fb (body_chunks req))), True))"
    using g u unfolding getMultipartFormData_def by (simp del: fun_upd_apply)
  show "fst (readMultipartFormData busboy req) \<noteq> Null"
    unfolding r by (simp add: awaited_not_Null split: sum.splits)
  show "fst (getMultipartFormData Busboy req) \<noteq> Null"
    unfolding gt by (simp add: awaited_not_Null split: sum.splits)
next
  show "getContentType req =
       (case headers req ''content-type'' of
          None \<Rightarrow> None
        | Some ct \<Rightarrow> if \<exists>rest. ct = ''multipart/form-data'' @ rest then Some ct else None)"
    unfolding getContentType_prefix startsWith_iff by (rule refl)
qed

section \<open>Multipart: the listeners at work\<close>

text \<open>Both sets of listeners are instances of the common shape.\<close>

lemma read_listeners_eq: "read_listeners e s = listeners read_args e s"
  by (cases e) (auto simp: split_def)

lemma get_listeners_eq: "get_listeners e s = listeners get_args e s"
  by (cases e) (auto simp: split_def)

lemma read_emission_eq: "read_emission = emission read_args"
  by (intro ext) (simp add: read_emission_def emission_def read_listeners_eq)

lemma read_task_eq: "read_task = task read_args"
  by (intro ext) (simp add: read_task_def task_def read_emission_eq)

lemma read_run_eq: "read_run ts = run read_args ts"
  by (simp add: read_run_def run_def read_task_eq)

lemma get_emission_eq: "get_emission = emission get_args"
  by (intro ext) (simp add: get_emission_def emission_def get_listeners_eq)

lemma get_task_eq: "get_task = task get_args"
  by (intro ext) (simp add: get_task_def task_def get_emission_eq)

lemma get_run_eq: "get_run ts = run get_args ts"
  by (simp add: get_run_def run_def get_task_eq)

lemma run_Nil: "run args [] = initial_state"
  by (simp add: run_def)

lemma run_snoc: "run args (ts @ [t]) = task args t (run args ts)"
  by (simp add: run_def)

lemma events_Nil: "events [] = []"
  by (simp add: events_def)

lemma events_snoc: "events (ts @ [t]) = events ts @ concat t"
  by (simp add: events_def)

lemma drain_Nil: "jobs s = [] \<Longrightarrow> drain s = s"
  by (subst drain.simps) simp

lemma drain_Cons: "jobs s = job # rest \<Longrightarrow> drain s = drain (run_job job (s\<lparr>jobs := rest\<rparr>))"
  by (subst drain.simps) simp

lemma jobs_drain: "jobs (drain s) = []"
proof (induction s rule: drain.induct)
  case (1 s)
  then show ?case
    by (cases "jobs s") (simp_all add: drain_Nil drain_Cons)
qed

lemma reaches_drain: "reaches args evs s \<Longrightarrow> reaches args evs (drain s)"
proof (induction s rule: drain.induct)
  case (1 s)
  show ?case
  proof (cases "jobs s")
    case Nil
    with "1.prems" show ?thesis by (simp add: drain_Nil)
  next
    case (Cons j rest)
    from reaches.job[OF "1.prems" Cons] "1.IH"[OF Cons] show ?thesis
      by (simp add: drain_Cons[OF Cons])
  qed
qed

lemma reaches_listeners:
  "reaches args evs s \<Longrightarrow> reaches args (evs @ em) (foldl (\<lambda>s e. listeners args e s) s em)"
proof (induction em rule: rev_induct)
  case Nil
  then show ?case by simp
next
  case (snoc e em)
  from reaches.event[OF snoc.IH[OF snoc.prems], of e] show ?case by simp
qed

lemma reaches_emission:
  "reaches args evs s \<Longrightarrow> reaches args (evs @ em) (emission args em s)"
  unfolding emission_def by (intro reaches_drain reaches_listeners)

lemma reaches_emissions:
  "reaches args evs s \<Longrightarrow> reaches args (evs @ concat t) (foldl (\<lambda>s em. emission args em s) s t)"
proof (induction t rule: rev_induct)
  case Nil
  then show ?case by simp
next
  case (snoc em t)
  from reaches_emission[OF snoc.IH[OF snoc.prems], of em] show ?case by simp
qed

lemma ended_task: "ended (task args t s) = None \<Longrightarrow> ended s = None"
  by (auto simp: task_def split: if_splits)

lemma reaches_task:
  "reaches args evs s \<Longrightarrow> ended (task args t s) = None \<Longrightarrow>
     reaches args (evs @ concat t) (task args t s)"
proof -
  assume r: "reaches args evs s" and e: "ended (task args t s) = None"
  from e have "ended s = None" by (rule ended_task)
  then have "task args t s = end_of_task (foldl (\<lambda>s em. emission args em s) s t)"
    by (simp add: task_def)
  with reaches.task_end[OF reaches_emissions[OF r, of t]] show ?thesis by simp
qed

lemma reaches_run: "ended (run args ts) = None \<Longrightarrow> reaches args (events ts) (run args ts)"
proof (induction ts rule: rev_induct)
  case Nil
  then show ?case by (simp add: run_Nil events_Nil reaches.start)
next
  case (snoc t ts)
  from snoc.prems have e: "ended (task args t (run args ts)) = None"
    by (simp add: run_snoc)
  then have "ended (run args ts) = None" by (rule ended_task)
  from reaches_task[OF snoc.IH[OF this] e] show ?case
    by (simp only: run_snoc events_snoc)
qed

lemma jobs_emissions:
  "jobs s = [] \<Longrightarrow> jobs (foldl (\<lambda>s em. emission args em s) s t) = []"
proof (cases t rule: rev_cases)
  case Nil
  assume "jobs s = []"
  with Nil show ?thesis by simp
next
  case (snoc t' em)
  then show ?thesis by (simp add: emission_def jobs_drain)
qed

lemma jobs_end_of_task: "jobs (end_of_task s) = jobs s"
  by (simp add: end_of_task_def split: list.splits prod.splits)

lemma jobs_task: "jobs s = [] \<Longrightarrow> jobs (task args t s) = []"
  unfolding task_def by (simp add: jobs_end_of_task jobs_emissions)

lemma jobs_run: "jobs (run args ts) = []"
proof (induction ts rule: rev_induct)
  case Nil
  show ?case by (simp add: run_Nil initial_state_def)
next
  case (snoc t ts)
  from jobs_task[OF snoc.IH] show ?case by (simp only: run_snoc)
qed

subsection \<open>Histories and what the listeners hold\<close>

lemma announced_append: "announced (xs @ ys) = announced xs @ announced ys"
  by (induction xs rule: announced.induct) auto

lemma received_append: "received k (xs @ ys) = received k xs @ received k ys"
  by (induction k xs rule: received.induct) auto

lemma follows_snoc: "follows ok pre (es @ [e]) = (follows ok pre es \<and> ok (pre @ es) e)"
  by (induction es arbitrary: pre) auto

lemma follows_prefix: "follows ok pre (xs @ ys) \<Longrightarrow> follows ok pre xs"
  by (induction xs arbitrary: pre) auto

lemma stream_protocol_snoc:
  "stream_protocol (evs @ [e]) = (stream_protocol evs \<and> stream_allowed evs e)"
  by (simp add: stream_protocol_def follows_snoc)

lemma find_snoc:
  "find P (xs @ [x]) = (case find P xs of None \<Rightarrow> (if P x then Some x else None) | Some y \<Rightarrow> Some y)"
  by (induction xs) auto

lemma find_Some_mem: "find P xs = Some x \<Longrightarrow> x \<in> set xs \<and> P x"
  by (induction xs) (auto split: if_splits)

lemma not_live_find: "\<not> list_ex (closes k) evs \<longleftrightarrow> find (closes k) evs = None"
  by (auto simp: find_None_iff list_ex_iff)

text \<open>What each step leaves alone.\<close>

lemma settled_fields:
  "promises (settled k p s) = promises s" "joins (settled k p s) = joins s"
  "outer (settled k p s) = outer s" "ended (settled k p s) = ended s"
  by (simp_all add: settled_def split: promise.splits)

lemma on_stream_fields:
  "promises (on_stream k f s)
     = (if k < length (promises s) then (promises s)[k := f (promises s ! k)] else promises s)"
  "joins (on_stream k f s) = joins s" "outer (on_stream k f s) = outer s"
  "ended (on_stream k f s) = ended s"
  by (simp_all add: on_stream_def Let_def settled_fields)

lemma on_finish_fields:
  "promises (on_finish s) = promises s" "outer (on_finish s) = outer s"
  "ended (on_finish s) = ended s"
  "joins (on_finish s)
     = joins s @ [\<lparr>parts = length (promises s), remaining = length (promises s),
                   all_promise = (if length (promises s) = 0 then Fulfilled [] else Pending)\<rparr>]"
  by (simp_all add: on_finish_def Let_def)

lemma map_update_same: "j < length xs \<Longrightarrow> f y = f (xs ! j) \<Longrightarrow> map f (xs[j := y]) = map f xs"
  by (simp add: map_update list_update_same_conv)

lemma run_job_fields:
  "promises (run_job j s) = promises s" "ended (run_job j s) = ended s"
  "unhandled (run_job j s) = unhandled s"
  "length (joins (run_job j s)) = length (joins s)"
  "map parts (joins (run_job j s)) = map parts (joins s)"
proof -
  show "promises (run_job j s) = promises s" by (cases j) (simp_all add: Let_def)
  show "ended (run_job j s) = ended s" by (cases j) (simp_all add: Let_def)
  show "unhandled (run_job j s) = unhandled s" by (cases j) (simp_all add: Let_def)
  show "length (joins (run_job j s)) = length (joins s)" by (cases j) (simp_all add: Let_def)
  show "map parts (joins (run_job j s)) = map parts (joins s)"
    by (cases j) (simp_all add: Let_def map_update_same)
qed

lemma end_of_task_fields:
  "promises (end_of_task s) = promises s" "joins (end_of_task s) = joins s"
  "outer (end_of_task s) = outer s" "jobs (end_of_task s) = jobs s"
  "unhandled (end_of_task s) = unhandled s"
  by (simp_all add: end_of_task_def split: list.splits prod.splits)

lemma length_promises_listeners:
  "length (promises (listeners args e s)) = length (promises s) + length (announced [e])"
  by (cases e) (auto simp: on_stream_fields on_finish_fields)

lemma reaches_length: "reaches args evs s \<Longrightarrow> length (promises s) = length (announced evs)"
  by (induction rule: reaches.induct)
     (simp_all add: initial_state_def length_promises_listeners announced_append run_job_fields
        end_of_task_fields)

lemma beyond:
  "stream_protocol evs \<Longrightarrow> length (announced evs) \<le> k \<Longrightarrow>
     received k evs = [] \<and> find (closes k) evs = None"
proof (induction evs rule: rev_induct)
  case Nil
  then show ?case by simp
next
  case (snoc e evs)
  then show ?case
    by (cases e) (auto simp: stream_protocol_snoc announced_append received_append find_snoc live_def)
qed

lemma reaches_parts:
  assumes "reaches args evs s"
  shows "stream_protocol evs \<Longrightarrow> k < length (announced evs) \<Longrightarrow> part_ok args evs k (promises s ! k)"
  using assms
proof (induction arbitrary: k rule: reaches.induct)
  case start
  then show ?case by simp
next
  case (event evs s e)
  have len: "length (promises s) = length (announced evs)"
    using event.hyps by (rule reaches_length)
  from event.prems have sp: "stream_protocol evs" and al: "stream_allowed evs e"
    by (simp_all add: stream_protocol_snoc)
  show ?case
  proof (cases "k < length (announced evs)")
    case True
    with event.IH sp have ih: "part_ok args evs k (promises s ! k)" by simp
    show ?thesis using ih al True len
      by (cases e)
         (auto simp: part_ok_def status_def on_stream_fields on_finish_fields nth_append
            nth_list_update announced_append received_append find_snoc live_def not_live_find
            on_data_def on_end_def on_error_def resolve_def reject_def record_of_def
            split: option.splits event.splits prod.splits)
  next
    case False
    with event.prems obtain f where e: "e = File f" and k: "k = length (announced evs)"
      by (cases e) (auto simp: announced_append)
    from beyond[OF sp, of k] k have "received k evs = []" "find (closes k) evs = None" by simp_all
    then show ?thesis using e k len
      by (auto simp: part_ok_def status_def nth_append announced_append received_append
            find_snoc new_part_def split: prod.splits)
  qed
next
  case (job evs s j rest)
  then show ?case by (simp add: run_job_fields)
next
  case (task_end evs s)
  then show ?case by (simp add: end_of_task_fields)
qed

lemma reaches_promise:
  "reaches args evs s \<Longrightarrow> stream_protocol evs \<Longrightarrow> k < length (announced evs) \<Longrightarrow>
     promise (promises s ! k) = status args k evs"
  using reaches_parts[of args evs s k] by (simp add: part_ok_def)

lemma closes_unique:
  "stream_protocol evs \<Longrightarrow> e \<in> set evs \<Longrightarrow> closes k e \<Longrightarrow> find (closes k) evs = Some e"
proof (induction evs rule: rev_induct)
  case Nil
  then show ?case by simp
next
  case (snoc e' evs)
  from snoc.prems have sp: "stream_protocol evs" and al: "stream_allowed evs e'"
    by (simp_all add: stream_protocol_snoc)
  show ?case
  proof (cases "e \<in> set evs")
    case True
    with snoc.IH sp snoc.prems(3) show ?thesis by (simp add: find_snoc)
  next
    case False
    with snoc.prems(2) have "e = e'" by simp
    with al snoc.prems(3) have "find (closes k) evs = None"
      by (cases e') (auto simp: live_def not_live_find)
    with \<open>e = e'\<close> snoc.prems(3) show ?thesis by (simp add: find_snoc)
  qed
qed

lemma closed_announced:
  "stream_protocol evs \<Longrightarrow> e \<in> set evs \<Longrightarrow> closes k e \<Longrightarrow> k < length (announced evs)"
  using beyond[of evs k] closes_unique[of evs e k] by (cases "k < length (announced evs)") auto

lemma status_End:
  "stream_protocol evs \<Longrightarrow> End k \<in> set evs \<Longrightarrow>
     status args k evs = Fulfilled (record_of args (announced evs ! k) (concat (received k evs)))"
  using closes_unique[of evs "End k" k] by (simp add: status_def)

lemma status_Fulfilled:
  "status args k evs = Fulfilled r \<Longrightarrow>
     End k \<in> set evs \<and> r = record_of args (announced evs ! k) (concat (received k evs))"
  by (auto simp: status_def split: option.splits event.splits dest: find_Some_mem)

text \<open>The joins: one per \<open>finish\<close>, over the parts announced until then.\<close>

lemma joins_listeners:
  "map parts (joins (listeners args e s))
     = map parts (joins s) @ (if e = Finish then [length (promises s)] else [])"
  by (cases e) (auto simp: on_stream_fields on_finish_fields)

lemma length_joins_listeners:
  "length (joins (listeners args e s)) = length (joins s) + (if e = Finish then 1 else 0)"
  by (cases e) (simp_all add: on_stream_fields on_finish_fields)

lemma reaches_joins_Finish: "reaches args evs s \<Longrightarrow> (0 < length (joins s)) = (Finish \<in> set evs)"
proof (induction rule: reaches.induct)
  case start
  show ?case by (simp add: initial_state_def)
next
  case (event evs s e)
  then show ?case by (auto simp: length_joins_listeners)
next
  case (job evs s j rest)
  then show ?case by (simp add: run_job_fields)
next
  case (task_end evs s)
  then show ?case by (simp add: end_of_task_fields)
qed

lemma reaches_joins_all:
  assumes "reaches args evs s"
  shows "follows finish_allowed [] evs \<Longrightarrow> n \<in> set (map parts (joins s)) \<Longrightarrow>
     n = length (announced evs)"
  using assms
proof (induction rule: reaches.induct)
  case start
  then show ?case by (simp add: initial_state_def)
next
  case (event evs s e)
  from event.prems have fa: "follows finish_allowed [] evs" and al: "finish_allowed evs e"
    by (simp_all add: follows_snoc)
  show ?case
  proof (cases "n \<in> set (map parts (joins s))")
    case True
    with event.IH fa have n: "n = length (announced evs)" by simp
    from True have "0 < length (joins s)" by auto
    with reaches_joins_Finish[OF event.hyps] have "Finish \<in> set evs" by simp
    with al have "announced [e] = []" by (cases e) auto
    with n show ?thesis by (simp add: announced_append)
  next
    case False
    with event.prems(2) have "e = Finish" "n = length (promises s)"
      by (auto simp: joins_listeners split: if_splits)
    then show ?thesis by (simp add: reaches_length[OF event.hyps] announced_append)
  qed
next
  case (job evs s j rest)
  then show ?case by (simp add: run_job_fields)
next
  case (task_end evs s)
  then show ?case by (simp add: end_of_task_fields)
qed

subsection \<open>The joins and the queue of jobs\<close>

lemma waiting_append: "n \<le> length ps \<Longrightarrow> waiting n (ps @ xs) = waiting n ps"
  by (simp add: waiting_def)

lemma length_filter_update:
  "k < length xs \<Longrightarrow>
     length (filter P (xs[k := y])) + (if P (xs ! k) then 1 else 0)
       = length (filter P xs) + (if P y then 1 else 0)"
proof (induction xs arbitrary: k)
  case Nil
  then show ?case by simp
next
  case (Cons x xs)
  then show ?case by (cases k) auto
qed

lemma waiting_update:
  assumes "k < length ps"
  shows "waiting n (ps[k := l]) + (if k < n \<and> \<not> fulfilled (promise (ps ! k)) then 1 else 0)
       = waiting n ps + (if k < n \<and> \<not> fulfilled (promise l) then 1 else 0)"
proof (cases "k < n")
  case True
  with assms have k: "k < length (take n ps)" by simp
  from length_filter_update[OF k, of "\<lambda>l. \<not> fulfilled (promise l)" l] True
  show ?thesis by (simp add: waiting_def take_update_swap)
next
  case False
  then show ?thesis by (simp add: waiting_def)
qed

lemma waiting_same:
  "k < length ps \<Longrightarrow> fulfilled (promise l) = fulfilled (promise (ps ! k)) \<Longrightarrow>
     waiting n (ps[k := l]) = waiting n ps"
  using waiting_update[of k ps n l] by (auto split: if_splits)

lemma count_upt_filter: "count_list (filter P [0..<m]) j = (if j < m \<and> P j then 1 else 0)"
  by (induction m) auto

lemma count_map_On_fulfilled: "count_list (map On_fulfilled js) (On_fulfilled j) = count_list js j"
  by (induction js) auto

lemma count_map_On_rejected: "count_list (map (\<lambda>j. On_rejected j e) js) (On_fulfilled j) = 0"
  by (induction js) auto

lemma element_jobs_of:
  "concat (map (\<lambda>j. element_job j (Fulfilled v)) js) = map On_fulfilled js"
  "concat (map (\<lambda>j. element_job j (Rejected e)) js) = map (\<lambda>j. On_rejected j e) js"
  "concat (map (\<lambda>j. element_job j Pending) js) = []"
  by (induction js) (simp_all add: element_job_def)

lemma count_finish_jobs:
  "count_list (concat (map (\<lambda>l. element_job j (promise l)) ps)) (On_fulfilled j')
     = (if j' = j then length (filter (\<lambda>l. fulfilled (promise l)) ps) else 0)"
  by (induction ps) (auto simp: element_job_def fulfilled_def split: promise.splits)

lemma finish_jobs_no_resolve:
  "Then_resolve fs \<notin> set (concat (map (\<lambda>l. element_job j (promise l)) ps))"
  by (induction ps) (auto simp: element_job_def split: promise.splits)

lemma finish_jobs_index:
  "On_fulfilled j' \<in> set (concat (map (\<lambda>l. element_job j (promise l)) ps)) \<Longrightarrow> j' = j"
  using count_finish_jobs[of j ps j']
    count_list_0_iff[of "concat (map (\<lambda>l. element_job j (promise l)) ps)" "On_fulfilled j'"]
  by (cases "j' = j") simp_all

lemma waiting_full: "waiting (length ps) ps + length (filter (\<lambda>l. fulfilled (promise l)) ps) = length ps"
  using sum_length_filter_compl[of "\<lambda>l. fulfilled (promise l)" ps] by (simp add: waiting_def)

lemma all_fulfilled_values:
  "\<forall>l\<in>set xs. fulfilled (promise l) \<Longrightarrow> map promise xs = map Fulfilled (fulfilled_values xs)"
  by (induction xs) (auto simp: fulfilled_values_def fulfilled_def split: promise.splits)

lemma waiting_0_values:
  "waiting n ps = 0 \<Longrightarrow> map promise (take n ps) = map Fulfilled (fulfilled_values (take n ps))"
  by (rule all_fulfilled_values) (auto simp: waiting_def filter_empty_conv)

lemma reacting_set: "j \<in> set (reacting k s) \<longleftrightarrow> j < length (joins s) \<and> k < parts (joins s ! j)"
  by (auto simp: reacting_def)

text \<open>The invariant looks at the parts' promises only.\<close>

lemma waiting_map: "waiting n ps = length (filter (\<lambda>p. \<not> fulfilled p) (take n (map promise ps)))"
  by (simp add: waiting_def take_map filter_map comp_def)

lemma consistent_cong:
  assumes "map promise (promises s') = map promise (promises s)" "joins s' = joins s"
    "jobs s' = jobs s" "outer s' = outer s"
  shows "consistent s' = consistent s"
proof -
  from assms(1) have len: "length (promises s') = length (promises s)"
    by (metis length_map)
  have tk: "map promise (take n (promises s')) = map promise (take n (promises s))" for n
    using assms(1) by (simp flip: take_map)
  have w: "waiting n (promises s') = waiting n (promises s)" for n
    by (simp add: waiting_map assms(1))
  show ?thesis
    unfolding consistent_def joins_exist_def counts_right_def jobs_known_def values_right_def
      outer_backed_def settles_def
    by (simp only: assms(2,3,4) len tk w)
qed

lemma consistent_unhandled: "consistent (s\<lparr>unhandled := u\<rparr>) = consistent s"
  by (rule consistent_cong) simp_all

lemma consistent_ended: "consistent (s\<lparr>ended := x\<rparr>) = consistent s"
  by (rule consistent_cong) simp_all

lemma consistent_same:
  "k < length (promises s) \<Longrightarrow> promise l = promise (promises s ! k) \<Longrightarrow>
     consistent (s\<lparr>promises := (promises s)[k := l]\<rparr>) = consistent s"
  by (rule consistent_cong) (simp_all add: map_update list_update_same_conv)

lemma consistent_initial: "consistent initial_state"
  by (simp add: consistent_def joins_exist_def counts_right_def jobs_known_def values_right_def
        outer_backed_def settles_def initial_state_def)

lemma consistent_file: "consistent s \<Longrightarrow> consistent (s\<lparr>promises := promises s @ [x]\<rparr>)"
  unfolding consistent_def joins_exist_def counts_right_def jobs_known_def values_right_def
    outer_backed_def settles_def
  by (auto simp: waiting_append less_Suc_eq_le)

lemma consistent_decoder_error: "consistent s \<Longrightarrow> consistent (s\<lparr>outer := reject e (outer s)\<rparr>)"
  unfolding consistent_def joins_exist_def counts_right_def jobs_known_def values_right_def
    outer_backed_def settles_def
  by (auto simp: reject_def split: promise.splits)

lemmas inv_defs = joins_exist_def counts_right_def jobs_known_def values_right_def
  outer_backed_def settles_def

text \<open>A part promise that settles is not among the promises of a fulfilled join.\<close>

lemma pending_outside:
  assumes "values_right s" "j < length (joins s)" "all_promise (joins s ! j) = Fulfilled fs"
    "k < length (promises s)" "promise (promises s ! k) = Pending"
  shows "parts (joins s ! j) \<le> k"
proof (rule ccontr)
  assume "\<not> parts (joins s ! j) \<le> k"
  then have k: "k < parts (joins s ! j)" by simp
  from assms(1,2,3) have m: "map promise (take (parts (joins s ! j)) (promises s)) = map Fulfilled fs"
    by (simp add: values_right_def)
  from arg_cong[OF m, of length] k assms(4) have "k < length fs" by simp
  with arg_cong[OF m, of "\<lambda>xs. xs ! k"] k assms(4) have "promise (promises s ! k) = Fulfilled (fs ! k)"
    by simp
  with assms(5) show False by simp
qed

lemma consistent_settle:
  assumes c: "consistent s" and k: "k < length (promises s)"
    and p: "promise (promises s ! k) = Pending"
    and q: "(\<exists>v. promise l = Fulfilled v \<and> new = map On_fulfilled (reacting k s))
          \<or> (\<exists>e. promise l = Rejected e \<and> (new = map (\<lambda>j. On_rejected j e) (reacting k s) \<or> new = []))"
  shows "consistent (s\<lparr>promises := (promises s)[k := l], jobs := jobs s @ new\<rparr>)"
proof -
  let ?t = "s\<lparr>promises := (promises s)[k := l], jobs := jobs s @ new\<rparr>"
  from c have je: "joins_exist s" and cr: "counts_right s" and jk: "jobs_known s"
    and vr: "values_right s" and ob: "outer_backed s" and st: "settles s"
    by (simp_all add: consistent_def)
  have nf: "\<not> fulfilled (promise (promises s ! k))" using p by (simp add: fulfilled_def)
  have new_res: "Then_resolve fs \<notin> set new" for fs using q by auto
  have new_idx: "On_fulfilled j \<in> set new \<Longrightarrow> j < length (joins s)" for j
    using q by (auto simp: reacting_set)
  have 1: "joins_exist ?t" using je by (simp add: joins_exist_def)
  have 2: "counts_right ?t"
    unfolding counts_right_def
  proof (intro allI impI)
    fix j assume "j < length (joins ?t)"
    then have j: "j < length (joins s)" by simp
    let ?n = "parts (joins s ! j)"
    from cr j have r: "remaining (joins s ! j) = waiting ?n (promises s) + count_list (jobs s) (On_fulfilled j)"
      by (simp add: counts_right_def)
    from q consider (ful) v where "promise l = Fulfilled v" "new = map On_fulfilled (reacting k s)"
      | (rej) e where "promise l = Rejected e"
          "new = map (\<lambda>j. On_rejected j e) (reacting k s) \<or> new = []"
      by blast
    then have "waiting ?n ((promises s)[k := l]) + count_list new (On_fulfilled j) = waiting ?n (promises s)"
    proof cases
      case ful
      with waiting_update[OF k, of ?n l] nf j show ?thesis
        by (auto simp: fulfilled_def count_map_On_fulfilled reacting_def count_upt_filter split: if_splits)
    next
      case rej
      with waiting_update[OF k, of ?n l] nf show ?thesis
        by (auto simp: fulfilled_def count_map_On_rejected split: if_splits)
    qed
    with r show "remaining (joins ?t ! j)
        = waiting (parts (joins ?t ! j)) (promises ?t) + count_list (jobs ?t) (On_fulfilled j)"
      by simp
  qed
  have 3: "jobs_known ?t" using jk new_res new_idx by (auto simp: jobs_known_def)
  have 4: "values_right ?t"
    unfolding values_right_def
  proof (intro allI impI)
    fix j fs assume "j < length (joins ?t)" "all_promise (joins ?t ! j) = Fulfilled fs"
    then have j: "j < length (joins s)" and f: "all_promise (joins s ! j) = Fulfilled fs" by simp_all
    from pending_outside[OF vr j f k p] have "parts (joins s ! j) \<le> k" .
    with vr j f show "map promise (take (parts (joins ?t ! j)) (promises ?t)) = map Fulfilled fs"
      by (simp add: values_right_def)
  qed
  have 5: "outer_backed ?t" using ob by (simp add: outer_backed_def)
  have 6: "settles ?t" using st by (auto simp: settles_def)
  from 1 2 3 4 5 6 show ?thesis by (simp add: consistent_def)
qed

lemma consistent_on_stream:
  assumes c: "consistent s"
    and f: "\<And>l. promise (f l) = promise l \<or> (promise l = Pending \<and> promise (f l) \<noteq> Pending)"
  shows "consistent (on_stream k f s)"
proof (cases "k < length (promises s)")
  case False
  with c show ?thesis by (simp add: on_stream_def)
next
  case k: True
  let ?l = "promises s ! k"
  show ?thesis
  proof (cases "promise (f ?l) = promise ?l")
    case True
    have "on_stream k f s = s\<lparr>promises := (promises s)[k := f ?l]\<rparr>"
      using k True
      by (cases "promise ?l") (simp_all add: on_stream_def Let_def settled_def element_jobs_of)
    with c True k show ?thesis by (simp add: consistent_same)
  next
    case False
    with f[of ?l] have p: "promise ?l = Pending" and np: "promise (f ?l) \<noteq> Pending" by auto
    let ?s' = "s\<lparr>promises := (promises s)[k := f ?l]\<rparr>"
    have re: "reacting k ?s' = reacting k s" by (simp add: reacting_def)
    show ?thesis
    proof (cases "promise (f ?l)")
      case Pending
      with np show ?thesis by simp
    next
      case (Fulfilled v)
      then have "on_stream k f s
          = s\<lparr>promises := (promises s)[k := f ?l], jobs := jobs s @ map On_fulfilled (reacting k s)\<rparr>"
        using k p by (simp add: on_stream_def Let_def settled_def element_jobs_of re)
      with consistent_settle[OF c k p, of "f ?l" "map On_fulfilled (reacting k s)"] Fulfilled
      show ?thesis by simp
    next
      case (Rejected e)
      show ?thesis
      proof (cases "reacting k s = []")
        case True
        then have "on_stream k f s
            = (s\<lparr>promises := (promises s)[k := f ?l], jobs := jobs s @ []\<rparr>)
                \<lparr>unhandled := unhandled s @ [(k, e)]\<rparr>"
          using k p Rejected by (simp add: on_stream_def Let_def settled_def re)
        with consistent_settle[OF c k p, of "f ?l" "[]"] Rejected
        show ?thesis by (simp only: consistent_unhandled) simp
      next
        case False
        then have "on_stream k f s
            = s\<lparr>promises := (promises s)[k := f ?l],
                 jobs := jobs s @ map (\<lambda>j. On_rejected j e) (reacting k s)\<rparr>"
          using k p Rejected by (simp add: on_stream_def Let_def settled_def element_jobs_of re)
        with consistent_settle[OF c k p, of "f ?l" "map (\<lambda>j. On_rejected j e) (reacting k s)"] Rejected
        show ?thesis by simp
      qed
    qed
  qed
qed

lemma consistent_finish: "consistent s \<Longrightarrow> consistent (on_finish s)"
proof -
  assume c: "consistent s"
  let ?n = "length (promises s)" and ?m = "length (joins s)"
  let ?J = "\<lparr>parts = ?n, remaining = ?n, all_promise = (if ?n = 0 then Fulfilled [] else Pending)\<rparr>"
  let ?new = "concat (map (\<lambda>l. element_job ?m (promise l)) (promises s))
                @ (if ?n = 0 then [Then_resolve []] else [])"
  let ?t = "s\<lparr>joins := joins s @ [?J], jobs := jobs s @ ?new\<rparr>"
  have t: "on_finish s = ?t\<lparr>unhandled := filter (\<lambda>(i, e). \<not> i < ?n) (unhandled s)\<rparr>"
    by (simp add: on_finish_def Let_def)
  from c have je: "joins_exist s" and cr: "counts_right s" and jk: "jobs_known s"
    and vr: "values_right s" and ob: "outer_backed s" and st: "settles s"
    by (simp_all add: consistent_def)
  have old_none: "count_list (jobs s) (On_fulfilled ?m) = 0"
    using jk by (auto simp: jobs_known_def count_list_0_iff)
  have 1: "joins_exist ?t" using je by (auto simp: joins_exist_def nth_append)
  have 2: "counts_right ?t"
    unfolding counts_right_def
  proof (intro allI impI)
    fix j assume "j < length (joins ?t)"
    then consider "j < ?m" | "j = ?m" by fastforce
    then show "remaining (joins ?t ! j)
        = waiting (parts (joins ?t ! j)) (promises ?t) + count_list (jobs ?t) (On_fulfilled j)"
    proof cases
      case 1
      with cr show ?thesis by (simp add: counts_right_def nth_append count_finish_jobs)
    next
      case 2
      with old_none waiting_full[of "promises s"] show ?thesis
        by (simp add: nth_append count_finish_jobs)
    qed
  qed
  have 3: "jobs_known ?t"
    unfolding jobs_known_def
  proof (intro conjI allI impI)
    fix j assume "On_fulfilled j \<in> set (jobs ?t)"
    then have "On_fulfilled j \<in> set (jobs s)
        \<or> On_fulfilled j \<in> set (concat (map (\<lambda>l. element_job ?m (promise l)) (promises s)))"
      by (auto split: if_splits)
    with jk finish_jobs_index[of j ?m "promises s"] show "j < length (joins ?t)"
      by (auto simp: jobs_known_def)
  next
    fix fs assume "Then_resolve fs \<in> set (jobs ?t)"
    with finish_jobs_no_resolve[of fs ?m "promises s"]
    have "Then_resolve fs \<in> set (jobs s) \<or> (?n = 0 \<and> fs = [])"
      by (auto split: if_splits)
    then show "\<exists>j<length (joins ?t). all_promise (joins ?t ! j) = Fulfilled fs"
    proof
      assume "Then_resolve fs \<in> set (jobs s)"
      with jk obtain j where "j < ?m" "all_promise (joins s ! j) = Fulfilled fs"
        by (auto simp: jobs_known_def)
      then show ?thesis by (intro exI[of _ j]) (simp add: nth_append)
    next
      assume "?n = 0 \<and> fs = []"
      then show ?thesis by (intro exI[of _ ?m]) (simp add: nth_append)
    qed
  qed
  have 4: "values_right ?t"
    using vr je by (auto simp: values_right_def joins_exist_def nth_append less_Suc_eq split: if_splits)
  have 5: "outer_backed ?t"
    using ob by (auto simp: outer_backed_def nth_append less_Suc_eq intro: exI)
  have 6: "settles ?t"
    using st by (auto simp: settles_def nth_append less_Suc_eq split: if_splits)
  from 1 2 3 4 5 6 have "consistent ?t" by (simp add: consistent_def)
  then show ?thesis unfolding t by (simp only: consistent_unhandled)
qed

lemma consistent_parts:
  "consistent s \<Longrightarrow> joins_exist s \<and> counts_right s \<and> jobs_known s \<and> values_right s
     \<and> outer_backed s \<and> settles s"
  by (simp add: consistent_def)

lemma consistent_then_resolve:
  assumes c: "consistent s" and q: "jobs s = Then_resolve fs # rest"
  shows "consistent (s\<lparr>jobs := rest, outer := resolve fs (outer s)\<rparr>)"
proof -
  let ?t = "s\<lparr>jobs := rest, outer := resolve fs (outer s)\<rparr>"
  note p = consistent_parts[OF c]
  have 1: "joins_exist ?t" using p by (simp add: joins_exist_def)
  have 2: "counts_right ?t" using p q by (simp add: counts_right_def)
  have 3: "jobs_known ?t" using p q by (auto simp: jobs_known_def)
  have 4: "values_right ?t" using p by (simp add: values_right_def)
  have 5: "outer_backed ?t"
    using p q by (cases "outer s") (auto simp: outer_backed_def jobs_known_def resolve_def)
  have 6: "settles ?t"
    using p by (cases "outer s") (auto simp: settles_def resolve_def)
  from 1 2 3 4 5 6 show ?thesis by (simp add: consistent_def)
qed

lemma consistent_catch:
  assumes c: "consistent s" and q: "jobs s = Catch e # rest"
  shows "consistent (s\<lparr>jobs := rest, outer := reject x (outer s)\<rparr>)"
proof -
  let ?t = "s\<lparr>jobs := rest, outer := reject x (outer s)\<rparr>"
  note p = consistent_parts[OF c]
  have 1: "joins_exist ?t" using p by (simp add: joins_exist_def)
  have 2: "counts_right ?t" using p q by (simp add: counts_right_def)
  have 3: "jobs_known ?t" using p q by (auto simp: jobs_known_def)
  have 4: "values_right ?t" using p by (simp add: values_right_def)
  have 5: "outer_backed ?t"
    using p by (cases "outer s") (auto simp: outer_backed_def reject_def)
  have 6: "settles ?t"
    using p by (cases "outer s") (auto simp: settles_def reject_def)
  from 1 2 3 4 5 6 show ?thesis by (simp add: consistent_def)
qed

lemma consistent_pass_reject:
  assumes c: "consistent s" and q: "jobs s = Pass_reject e # rest"
  shows "consistent (s\<lparr>jobs := rest @ [Catch e]\<rparr>)"
proof -
  let ?t = "s\<lparr>jobs := rest @ [Catch e]\<rparr>"
  note p = consistent_parts[OF c]
  have 1: "joins_exist ?t" using p by (simp add: joins_exist_def)
  have 2: "counts_right ?t" using p q by (simp add: counts_right_def)
  have 3: "jobs_known ?t" using p q by (auto simp: jobs_known_def)
  have 4: "values_right ?t" using p by (simp add: values_right_def)
  have 5: "outer_backed ?t" using p by (simp add: outer_backed_def)
  have 6: "settles ?t" using p q by (auto simp: settles_def)
  from 1 2 3 4 5 6 show ?thesis by (simp add: consistent_def)
qed

lemma consistent_drop:
  assumes c: "consistent s" and q: "jobs s = job # rest"
    and h: "\<forall>j. job \<noteq> On_fulfilled j" "\<forall>fs. job \<noteq> Then_resolve fs"
  shows "consistent (s\<lparr>jobs := rest\<rparr>)"
proof -
  let ?t = "s\<lparr>jobs := rest\<rparr>"
  note p = consistent_parts[OF c]
  have 1: "joins_exist ?t" using p by (simp add: joins_exist_def)
  have 2: "counts_right ?t" using p q h by (simp add: counts_right_def)
  have 3: "jobs_known ?t" using p q by (auto simp: jobs_known_def)
  have 4: "values_right ?t" using p by (simp add: values_right_def)
  have 5: "outer_backed ?t" using p by (simp add: outer_backed_def)
  have 6: "settles ?t" using p q h by (auto simp: settles_def) metis
  from 1 2 3 4 5 6 show ?thesis by (simp add: consistent_def)
qed

lemma consistent_on_rejected:
  assumes c: "consistent s" and q: "jobs s = On_rejected j e # rest"
    and j: "j < length (joins s)" and pe: "all_promise (joins s ! j) = Pending"
  shows "consistent (s\<lparr>joins := (joins s)[j := (joins s ! j)\<lparr>all_promise := Rejected e\<rparr>],
                       jobs := rest @ [Pass_reject e]\<rparr>)"
proof -
  let ?t = "s\<lparr>joins := (joins s)[j := (joins s ! j)\<lparr>all_promise := Rejected e\<rparr>],
               jobs := rest @ [Pass_reject e]\<rparr>"
  note p = consistent_parts[OF c]
  have 1: "joins_exist ?t" using p j by (auto simp: joins_exist_def nth_list_update)
  have 2: "counts_right ?t" using p j q by (auto simp: counts_right_def nth_list_update)
  have 3: "jobs_known ?t"
    unfolding jobs_known_def
  proof (intro conjI allI impI)
    fix i assume "On_fulfilled i \<in> set (jobs ?t)"
    with p q show "i < length (joins ?t)" by (auto simp: jobs_known_def)
  next
    fix fs assume "Then_resolve fs \<in> set (jobs ?t)"
    with p q obtain i where i: "i < length (joins s)" "all_promise (joins s ! i) = Fulfilled fs"
      by (auto simp: jobs_known_def)
    with pe have "i \<noteq> j" by auto
    with i show "\<exists>i<length (joins ?t). all_promise (joins ?t ! i) = Fulfilled fs"
      by (intro exI[of _ i]) simp
  qed
  have 4: "values_right ?t" using p j by (auto simp: values_right_def nth_list_update)
  have 5: "outer_backed ?t"
    unfolding outer_backed_def
  proof (intro allI impI)
    fix fs assume "outer ?t = Fulfilled fs"
    with p obtain i where i: "i < length (joins s)" "all_promise (joins s ! i) = Fulfilled fs"
      by (auto simp: outer_backed_def)
    with pe have "i \<noteq> j" by auto
    with i show "\<exists>i<length (joins ?t). all_promise (joins ?t ! i) = Fulfilled fs"
      by (intro exI[of _ i]) simp
  qed
  have 6: "settles ?t" using p j q by (auto simp: settles_def nth_list_update)
  from 1 2 3 4 5 6 show ?thesis by (simp add: consistent_def)
qed

lemma consistent_on_fulfilled:
  assumes c: "consistent s" and q: "jobs s = On_fulfilled j # rest"
  shows "consistent (run_job (On_fulfilled j) (s\<lparr>jobs := rest\<rparr>))"
proof -
  note p = consistent_parts[OF c]
  from p q have j: "j < length (joins s)" by (auto simp: jobs_known_def)
  let ?J = "joins s ! j"
  from p j q have r: "remaining ?J = waiting (parts ?J) (promises s) + Suc (count_list rest (On_fulfilled j))"
    by (simp add: counts_right_def)
  have others: "count_list rest (On_fulfilled i) = count_list (jobs s) (On_fulfilled i)" if "i \<noteq> j" for i
    using q that by simp
  show ?thesis
  proof (cases "remaining ?J = 1")
    case one: True
    with r have w: "waiting (parts ?J) (promises s) = 0" and cnt: "count_list rest (On_fulfilled j) = 0"
      by simp_all
    show ?thesis
    proof (cases "all_promise ?J = Pending")
      case True
      let ?files = "fulfilled_values (take (parts ?J) (promises s))"
      let ?t = "s\<lparr>joins := (joins s)[j := ?J\<lparr>remaining := 0, all_promise := Fulfilled ?files\<rparr>],
                   jobs := rest @ [Then_resolve ?files]\<rparr>"
      have t: "run_job (On_fulfilled j) (s\<lparr>jobs := rest\<rparr>) = ?t"
        using j one True by (simp add: Let_def)
      have 1: "joins_exist ?t" using p j by (auto simp: joins_exist_def nth_list_update)
      have 2: "counts_right ?t"
        using p j w cnt others by (auto simp: counts_right_def nth_list_update)
      have 3: "jobs_known ?t"
        unfolding jobs_known_def
      proof (intro conjI allI impI)
        fix i assume "On_fulfilled i \<in> set (jobs ?t)"
        with p q show "i < length (joins ?t)" by (auto simp: jobs_known_def)
      next
        fix fs assume "Then_resolve fs \<in> set (jobs ?t)"
        then have "Then_resolve fs \<in> set (jobs s) \<or> fs = ?files" using q by auto
        then show "\<exists>i<length (joins ?t). all_promise (joins ?t ! i) = Fulfilled fs"
        proof
          assume "Then_resolve fs \<in> set (jobs s)"
          with p obtain i where i: "i < length (joins s)" "all_promise (joins s ! i) = Fulfilled fs"
            by (auto simp: jobs_known_def)
          with True have "i \<noteq> j" by auto
          with i show ?thesis by (intro exI[of _ i]) simp
        next
          assume "fs = ?files"
          with j show ?thesis by (intro exI[of _ j]) simp
        qed
      qed
      have 4: "values_right ?t"
        using p j waiting_0_values[OF w] by (auto simp: values_right_def nth_list_update)
      have 5: "outer_backed ?t"
        unfolding outer_backed_def
      proof (intro allI impI)
        fix fs assume "outer ?t = Fulfilled fs"
        with p obtain i where i: "i < length (joins s)" "all_promise (joins s ! i) = Fulfilled fs"
          by (auto simp: outer_backed_def)
        with True have "i \<noteq> j" by auto
        with i show "\<exists>i<length (joins ?t). all_promise (joins ?t ! i) = Fulfilled fs"
          by (intro exI[of _ i]) simp
      qed
      have 6: "settles ?t" using p j q by (auto simp: settles_def nth_list_update)
      from 1 2 3 4 5 6 show ?thesis unfolding t by (simp add: consistent_def)
    next
      case False
      let ?t = "s\<lparr>joins := (joins s)[j := ?J\<lparr>remaining := 0\<rparr>], jobs := rest\<rparr>"
      have t: "run_job (On_fulfilled j) (s\<lparr>jobs := rest\<rparr>) = ?t"
        using j one False by (simp add: Let_def)
      have 1: "joins_exist ?t" using p j by (auto simp: joins_exist_def nth_list_update)
      have 2: "counts_right ?t"
        using p j w cnt others by (auto simp: counts_right_def nth_list_update)
      have 3: "jobs_known ?t"
        using p j q by (auto simp: jobs_known_def nth_list_update)
      have 4: "values_right ?t" using p j by (auto simp: values_right_def nth_list_update)
      have 5: "outer_backed ?t"
        using p j by (auto simp: outer_backed_def nth_list_update)
      have 6: "settles ?t" using p j q False by (auto simp: settles_def nth_list_update)
      from 1 2 3 4 5 6 show ?thesis unfolding t by (simp add: consistent_def)
    qed
  next
    case False
    let ?t = "s\<lparr>joins := (joins s)[j := ?J\<lparr>remaining := remaining ?J - 1\<rparr>], jobs := rest\<rparr>"
    have t: "run_job (On_fulfilled j) (s\<lparr>jobs := rest\<rparr>) = ?t"
      using j False by (simp add: Let_def)
    from r False have r2: "2 \<le> remaining ?J" by arith
    have 1: "joins_exist ?t" using p j by (auto simp: joins_exist_def nth_list_update)
    have 2: "counts_right ?t"
      using p j r others by (auto simp: counts_right_def nth_list_update)
    have 3: "jobs_known ?t"
      using p j q by (auto simp: jobs_known_def nth_list_update)
    have 4: "values_right ?t" using p j by (auto simp: values_right_def nth_list_update)
    have 5: "outer_backed ?t"
      using p j by (auto simp: outer_backed_def nth_list_update)
    have 6: "settles ?t" using p j q r2 by (auto simp: settles_def nth_list_update)
    from 1 2 3 4 5 6 show ?thesis unfolding t by (simp add: consistent_def)
  qed
qed

lemma consistent_job:
  assumes c: "consistent s" and q: "jobs s = job # rest"
  shows "consistent (run_job job (s\<lparr>jobs := rest\<rparr>))"
proof (cases job)
  case (On_fulfilled j)
  with consistent_on_fulfilled[OF c] q show ?thesis by simp
next
  case (On_rejected j e)
  show ?thesis
  proof (cases "j < length (joins s) \<and> all_promise (joins s ! j) = Pending")
    case True
    with consistent_on_rejected[OF c, of j e rest] q On_rejected show ?thesis by simp
  next
    case False
    with consistent_drop[OF c q] On_rejected show ?thesis by auto
  qed
next
  case (Then_resolve fs)
  with consistent_then_resolve[OF c, of fs rest] q show ?thesis by simp
next
  case (Pass_reject e)
  with consistent_pass_reject[OF c, of e rest] q show ?thesis by simp
next
  case (Catch e)
  with consistent_catch[OF c, of e rest "catch_error e"] q show ?thesis by simp
qed

lemma stream_listener_steps:
  "promise (on_data chunk l) = promise l"
  "promise (on_end l) = promise l \<or> (promise l = Pending \<and> promise (on_end l) \<noteq> Pending)"
  "promise (on_error e l) = promise l \<or> (promise l = Pending \<and> promise (on_error e l) \<noteq> Pending)"
  by (cases "promise l"; simp add: on_data_def on_end_def on_error_def resolve_def reject_def)+

lemma consistent_listeners: "consistent s \<Longrightarrow> consistent (listeners args e s)"
proof (cases e)
  case (File f)
  assume "consistent s"
  then show ?thesis unfolding File by (simp add: consistent_file)
next
  case (Field n v)
  assume "consistent s"
  then show ?thesis unfolding Field by simp
next
  case (Data k chunk)
  assume "consistent s"
  then show ?thesis unfolding Data
    by (simp add: consistent_on_stream stream_listener_steps)
next
  case (End k)
  assume "consistent s"
  then show ?thesis unfolding End
    by (simp add: consistent_on_stream stream_listener_steps)
next
  case (Stream_error k x)
  assume "consistent s"
  then show ?thesis unfolding Stream_error
    by (simp add: consistent_on_stream stream_listener_steps)
next
  case Finish
  assume "consistent s"
  then show ?thesis unfolding Finish by (simp add: consistent_finish)
next
  case (Decoder_error x)
  assume "consistent s"
  then show ?thesis unfolding Decoder_error by (simp add: consistent_decoder_error)
qed

lemma end_of_task_ended: "end_of_task s = s \<or> (\<exists>x. end_of_task s = s\<lparr>ended := Some x\<rparr>)"
  by (auto simp: end_of_task_def split: list.splits prod.splits)

lemma reaches_consistent: "reaches args evs s \<Longrightarrow> consistent s"
proof (induction rule: reaches.induct)
  case start
  show ?case by (rule consistent_initial)
next
  case (event evs s e)
  then show ?case by (simp add: consistent_listeners)
next
  case (job evs s j rest)
  then show ?case by (simp add: consistent_job)
next
  case (task_end evs s)
  with end_of_task_ended[of s] show ?case by (auto simp: consistent_ended)
qed

text \<open>Without a reported error nothing is rejected, and the process goes on.\<close>

lemma clean_on_stream:
  assumes c: "clean s" and f: "\<And>l e. promise (f l) \<noteq> Rejected e"
  shows "clean (on_stream k f s)"
proof (cases "k < length (promises s)")
  case False
  with c show ?thesis by (simp add: on_stream_def)
next
  case True
  let ?l = "promises s ! k"
  let ?s' = "s\<lparr>promises := (promises s)[k := f ?l]\<rparr>"
  have s': "clean ?s'"
    using c f True by (auto simp: clean_def nth_list_update)
  have "clean (settled k (promise (f ?l)) ?s')"
    using s' f[of ?l]
    by (cases "promise (f ?l)") (auto simp: settled_def clean_def element_jobs_of)
  with s' True show ?thesis by (simp add: on_stream_def Let_def)
qed

lemma clean_finish: "clean s \<Longrightarrow> clean (on_finish s)"
proof -
  assume c: "clean s"
  have "harmless job"
    if "job \<in> set (concat (map (\<lambda>l. element_job j (promise l)) (promises s)))" for job j
  proof -
    from that obtain l where l: "l \<in> set (promises s)" "job \<in> set (element_job j (promise l))"
      by auto
    from l(1) c have "\<forall>e. promise l \<noteq> Rejected e"
      by (auto simp: clean_def in_set_conv_nth)
    with l(2) show ?thesis by (cases "promise l") (auto simp: element_job_def)
  qed
  with c show ?thesis
    by (auto simp: clean_def on_finish_def Let_def nth_append less_Suc_eq split: if_splits)
qed

lemma clean_listeners: "clean s \<Longrightarrow> quiet e \<Longrightarrow> clean (listeners args e s)"
proof (cases e)
  case (File f)
  assume "clean s"
  then show ?thesis unfolding File
    by (auto simp: clean_def nth_append new_part_def less_Suc_eq split: prod.splits)
next
  case (Data k chunk)
  assume "clean s"
  then have "\<And>l e. l \<in> set (promises s) \<Longrightarrow> promise l \<noteq> Rejected e"
    by (auto simp: clean_def in_set_conv_nth)
  show ?thesis unfolding Data listeners.simps
  proof (cases "k < length (promises s)")
    case False
    with \<open>clean s\<close> show "clean (on_stream k (on_data chunk) s)" by (simp add: on_stream_def)
  next
    case True
    let ?l = "promises s ! k"
    have "on_stream k (on_data chunk) s = s\<lparr>promises := (promises s)[k := on_data chunk ?l]\<rparr>"
      using True
      by (cases "promise ?l") (simp_all add: on_stream_def Let_def settled_def element_jobs_of on_data_def)
    with \<open>clean s\<close> True show "clean (on_stream k (on_data chunk) s)"
      by (auto simp: clean_def nth_list_update on_data_def)
  qed
next
  case (End k)
  assume "clean s"
  then have "\<And>i e. i < length (promises s) \<Longrightarrow> promise (promises s ! i) \<noteq> Rejected e"
    by (auto simp: clean_def)
  show ?thesis unfolding End listeners.simps
  proof (cases "k < length (promises s)")
    case False
    with \<open>clean s\<close> show "clean (on_stream k on_end s)" by (simp add: on_stream_def)
  next
    case True
    let ?l = "promises s ! k"
    let ?s' = "s\<lparr>promises := (promises s)[k := on_end ?l]\<rparr>"
    from \<open>clean s\<close> True have nr: "\<And>e. promise ?l \<noteq> Rejected e" by (auto simp: clean_def)
    then have nr': "\<And>e. promise (on_end ?l) \<noteq> Rejected e"
      by (cases "promise ?l") (auto simp: on_end_def resolve_def)
    have s': "clean ?s'" using \<open>clean s\<close> True nr' by (auto simp: clean_def nth_list_update)
    have "clean (settled k (promise (on_end ?l)) ?s')"
      using s' nr' by (cases "promise (on_end ?l)") (auto simp: settled_def clean_def element_jobs_of)
    with s' True show "clean (on_stream k on_end s)" by (simp add: on_stream_def Let_def)
  qed
next
  case Finish
  assume "clean s"
  then show ?thesis unfolding Finish by (simp add: clean_finish)
qed simp_all

lemma clean_job:
  assumes c: "clean s" and q: "jobs s = job # rest"
  shows "clean (run_job job (s\<lparr>jobs := rest\<rparr>))"
proof -
  from c q have h: "harmless job" by (simp add: clean_def)
  from c q have r: "clean (s\<lparr>jobs := rest\<rparr>)" by (simp add: clean_def)
  from h show ?thesis
  proof (cases job)
    case (On_fulfilled j)
    with r show ?thesis
      by (auto simp: clean_def Let_def nth_list_update)
  next
    case (Then_resolve fs)
    with r show ?thesis by (cases "outer s") (auto simp: clean_def resolve_def)
  qed simp_all
qed

lemma clean_end_of_task: "clean s \<Longrightarrow> end_of_task s = s"
  by (simp add: clean_def end_of_task_def)

lemma reaches_clean: "reaches args evs s \<Longrightarrow> \<forall>e\<in>set evs. quiet e \<Longrightarrow> clean s"
proof (induction rule: reaches.induct)
  case start
  show ?case by (simp add: clean_def initial_state_def)
next
  case (event evs s e)
  then show ?case by (simp add: clean_listeners)
next
  case (job evs s j rest)
  then show ?case by (simp add: clean_job)
next
  case (task_end evs s)
  then show ?case by (simp add: clean_end_of_task)
qed

lemma quiet_run:
  "\<forall>e\<in>set (events ts). quiet e \<Longrightarrow> reaches args (events ts) (run args ts) \<and> clean (run args ts)"
proof (induction ts rule: rev_induct)
  case Nil
  have "clean initial_state" by (simp add: clean_def initial_state_def)
  then show ?case by (simp add: run_Nil events_Nil reaches.start)
next
  case (snoc t ts)
  let ?s = "run args ts"
  from snoc.prems have q: "\<forall>e\<in>set (events ts). quiet e" and qt: "\<forall>e\<in>set (events (ts @ [t])). quiet e"
    by (simp_all add: events_snoc)
  from snoc.IH[OF q] have r: "reaches args (events ts) ?s" and c: "clean ?s" by simp_all
  let ?u = "foldl (\<lambda>s em. emission args em s) ?s t"
  from reaches_emissions[OF r, of t] have ru: "reaches args (events (ts @ [t])) ?u"
    by (simp add: events_snoc)
  from reaches_clean[OF ru qt] have cu: "clean ?u" .
  from c have "ended ?s = None" by (simp add: clean_def)
  then have "run args (ts @ [t]) = ?u"
    by (simp add: run_snoc task_def clean_end_of_task[OF cu])
  with ru cu show ?case by simp
qed

subsection \<open>The outcome of a run\<close>

lemma awaited_Files: "awaited s = Files recs \<longleftrightarrow> ended s = None \<and> outer s = Fulfilled recs"
  by (auto simp: awaited_def split: option.splits promise.splits)

lemma events_append: "events (xs @ ys) = events xs @ events ys"
  by (simp add: events_def)

lemma decoder_protocol_take: "decoder_protocol (events ts) \<Longrightarrow> decoder_protocol (events (take n ts))"
proof -
  assume dp: "decoder_protocol (events ts)"
  have "events ts = events (take n ts) @ events (drop n ts)"
    using events_append[of "take n ts" "drop n ts"] by simp
  with dp show ?thesis
    by (auto simp: decoder_protocol_def stream_protocol_def dest: follows_prefix)
qed

text \<open>A fulfilled call: the join behind it, and what the join holds.\<close>

lemma reaches_Fulfilled:
  assumes r: "reaches args evs s" and sp: "stream_protocol evs" and o: "outer s = Fulfilled recs"
  shows "\<exists>n. n \<in> set (map parts (joins s)) \<and> n \<le> length (announced evs) \<and> length recs = n \<and>
     (\<forall>k<n. End k \<in> set evs
        \<and> recs ! k = record_of args (announced evs ! k) (concat (received k evs)))"
proof -
  from reaches_consistent[OF r] have je: "joins_exist s" and vr: "values_right s"
    and ob: "outer_backed s"
    by (simp_all add: consistent_def)
  from ob o obtain j where j: "j < length (joins s)" "all_promise (joins s ! j) = Fulfilled recs"
    by (auto simp: outer_backed_def)
  let ?n = "parts (joins s ! j)"
  from je j have n: "?n \<le> length (promises s)" by (simp add: joins_exist_def)
  from vr j have m: "map promise (take ?n (promises s)) = map Fulfilled recs"
    by (simp add: values_right_def)
  from arg_cong[OF m, of length] n have len: "length recs = ?n" by simp
  have len_p: "length (promises s) = length (announced evs)" using r by (rule reaches_length)
  have each: "End k \<in> set evs
        \<and> recs ! k = record_of args (announced evs ! k) (concat (received k evs))"
    if k: "k < ?n" for k
  proof -
    from arg_cong[OF m, of "\<lambda>xs. xs ! k"] k n len
    have "promise (promises s ! k) = Fulfilled (recs ! k)" by simp
    moreover from k n len_p have "k < length (announced evs)" by simp
    ultimately have "status args k evs = Fulfilled (recs ! k)"
      using reaches_promise[OF r sp, of k] by simp
    from status_Fulfilled[OF this] show ?thesis .
  qed
  from j(1) have "?n \<in> set (map parts (joins s))" by simp
  with n len_p len each show ?thesis by (intro exI[of _ ?n]) simp
qed

lemma reaches_content:
  assumes r: "reaches args evs s" and sp: "stream_protocol evs" and o: "outer s = Fulfilled recs"
    and k: "k < length recs"
  shows "buffer (recs ! k) = concat (received k evs)"
proof -
  from reaches_Fulfilled[OF r sp o] k
  have "recs ! k = record_of args (announced evs ! k) (concat (received k evs))" by auto
  then show ?thesis by (simp add: record_of_def split: prod.splits)
qed

lemma reaches_Fulfilled_sound:
  assumes r: "reaches args evs s" and dp: "decoder_protocol evs" and o: "outer s = Fulfilled recs"
  shows "Finish \<in> set evs \<and> (\<forall>k<length (announced evs). End k \<in> set evs)
     \<and> recs = records args evs"
proof -
  from dp have sp: "stream_protocol evs" and fa: "follows finish_allowed [] evs"
    by (simp_all add: decoder_protocol_def)
  from reaches_Fulfilled[OF r sp o] obtain n where n: "n \<in> set (map parts (joins s))"
    and len: "length recs = n"
    and each: "\<forall>k<n. End k \<in> set evs
        \<and> recs ! k = record_of args (announced evs ! k) (concat (received k evs))"
    by blast
  from reaches_joins_all[OF r fa n] have all: "n = length (announced evs)" .
  from n have "0 < length (joins s)" by (cases "joins s") simp_all
  with reaches_joins_Finish[OF r] have fin: "Finish \<in> set evs" by simp
  have "recs = records args evs"
    using len all each by (intro nth_equalityI) (simp_all add: records_def)
  with fin each all show ?thesis by simp
qed

text \<open>The outcome of a whole run.\<close>

lemma run_content:
  assumes "awaited (run args ts) = Files recs" "stream_protocol (events ts)" "k < length recs"
  shows "buffer (recs ! k) = concat (received k (events ts))"
proof -
  from assms(1) have e: "ended (run args ts) = None" and o: "outer (run args ts) = Fulfilled recs"
    by (simp_all add: awaited_Files)
  from reaches_content[OF reaches_run[OF e] assms(2) o assms(3)] show ?thesis .
qed

lemma run_Files_sound:
  assumes "awaited (run args ts) = Files recs" "decoder_protocol (events ts)"
  shows "Finish \<in> set (events ts) \<and> (\<forall>k<length (announced (events ts)). End k \<in> set (events ts))
     \<and> recs = records args (events ts)"
proof -
  from assms(1) have e: "ended (run args ts) = None" and o: "outer (run args ts) = Fulfilled recs"
    by (simp_all add: awaited_Files)
  from reaches_Fulfilled_sound[OF reaches_run[OF e] assms(2) o] show ?thesis .
qed

lemma protocol_quiet:
  assumes sp: "stream_protocol evs"
    and ended: "\<forall>k<length (announced evs). End k \<in> set evs"
    and noerr: "\<forall>x. Decoder_error x \<notin> set evs"
  shows "\<forall>e\<in>set evs. quiet e"
proof
  fix e assume e: "e \<in> set evs"
  show "quiet e"
  proof (cases e)
    case (Stream_error k x)
    with e have m: "Stream_error k x \<in> set evs" by simp
    from closed_announced[OF sp m] have "k < length (announced evs)" by simp
    with ended have "End k \<in> set evs" by simp
    from closes_unique[OF sp this, of k] closes_unique[OF sp m, of k] show ?thesis by simp
  next
    case (Decoder_error x)
    with e noerr show ?thesis by simp
  qed simp_all
qed

lemma run_Files_complete:
  assumes dp: "decoder_protocol (events ts)"
    and fin: "Finish \<in> set (events ts)"
    and ended: "\<forall>k<length (announced (events ts)). End k \<in> set (events ts)"
    and noerr: "\<forall>x. Decoder_error x \<notin> set (events ts)"
  shows "awaited (run args ts) = Files (records args (events ts))"
proof -
  let ?evs = "events ts" and ?s = "run args ts"
  from dp have sp: "stream_protocol ?evs" and fa: "follows finish_allowed [] ?evs"
    by (simp_all add: decoder_protocol_def)
  from quiet_run[OF protocol_quiet[OF sp ended noerr], of args]
  have r: "reaches args ?evs ?s" and c: "clean ?s" by simp_all
  from reaches_consistent[OF r] have cr: "counts_right ?s" and st: "settles ?s"
    by (simp_all add: consistent_def)
  have q: "jobs ?s = []" by (rule jobs_run)
  from reaches_joins_Finish[OF r] fin have j: "0 < length (joins ?s)" by simp
  let ?J = "joins ?s ! 0"
  from j have "parts ?J \<in> set (map parts (joins ?s))" by (simp add: nth_mem)
  from reaches_joins_all[OF r fa this] have n: "parts ?J = length (announced ?evs)" .
  have len: "length (promises ?s) = length (announced ?evs)" using r by (rule reaches_length)
  have "fulfilled (promise l)" if "l \<in> set (promises ?s)" for l
  proof -
    from that obtain k where k: "k < length (promises ?s)" "l = promises ?s ! k"
      by (auto simp: in_set_conv_nth)
    with len ended have "End k \<in> set ?evs" by simp
    from status_End[OF sp this, of args] reaches_promise[OF r sp, of k] k len
    show ?thesis by (simp add: fulfilled_def)
  qed
  then have "waiting (parts ?J) (promises ?s) = 0"
    by (auto simp: waiting_def filter_empty_conv dest: in_set_takeD)
  with cr j q have "remaining ?J = 0" by (simp add: counts_right_def)
  with st j have np: "all_promise ?J \<noteq> Pending" by (simp add: settles_def)
  from c j have "\<forall>e. all_promise ?J \<noteq> Rejected e" by (simp add: clean_def)
  with np obtain fs where fs: "all_promise ?J = Fulfilled fs" by (cases "all_promise ?J") auto
  with st j q have "outer ?s \<noteq> Pending" by (auto simp: settles_def)
  moreover from c have "\<forall>e. outer ?s \<noteq> Rejected e" by (simp add: clean_def)
  ultimately obtain recs where o: "outer ?s = Fulfilled recs" by (cases "outer ?s") auto
  from c have e: "ended ?s = None" by (simp add: clean_def)
  from reaches_Fulfilled_sound[OF r dp o] have "recs = records args ?evs" by simp
  with o e show ?thesis by (simp add: awaited_Files)
qed

lemma length_records: "length (records args evs) = length (announced evs)"
  by (simp add: records_def)

lemma buffer_records:
  "k < length (announced evs) \<Longrightarrow> buffer (records args evs ! k) = concat (received k evs)"
  by (simp add: records_def record_of_def split: prod.splits)

text \<open>The two decoders side by side.\<close>

lemma get_listeners_to_fastify: "get_listeners (map_event to_fastify e) s = read_listeners e s"
  by (cases e) (auto simp: split_def)

lemma get_emission_to_fastify: "get_emission (map (map_event to_fastify) em) = read_emission em"
  by (rule ext) (simp add: get_emission_def read_emission_def foldl_map get_listeners_to_fastify)

lemma get_task_to_fastify: "get_task (map (map (map_event to_fastify)) t) = read_task t"
  by (rule ext) (simp add: get_task_def read_task_def foldl_map get_emission_to_fastify)

lemma get_run_to_fastify: "get_run (map (map (map (map_event to_fastify))) ts) = read_run ts"
  by (simp add: get_run_def read_run_def foldl_map get_task_to_fastify)

lemma to_fastify_to_busboy: "to_fastify (to_busboy f) = f"
  by (cases f) simp

lemma as_fastify_as_busboy: "as_fastify (as_busboy Busboy) = Busboy"
proof
  fix h
  have "map (map (map (map_event to_fastify))) (map (map (map (map_event to_busboy))) xs) = xs"
    for xs
    by (simp add: event.map_comp comp_def to_fastify_to_busboy event.map_ident)
  then show "as_fastify (as_busboy Busboy) h = Busboy h"
    by (simp add: as_fastify_def as_busboy_def split: sum.splits)
qed

subsection \<open>The example runs\<close>

lemmas run_defs = read_run_def read_task_def read_emission_def
  initial_state_def new_part_def on_stream_def on_data_def on_end_def on_error_def
  settled_def reacting_def element_job_def on_finish_def fulfilled_values_def
  end_of_task_def resolve_def reject_def catch_error_def awaited_def Let_def drain.simps
  upt_rec[of 0] upt_rec[of 1]

lemma mixed_events:
  "events mixed_tasks =
     [Field ''text'' ''some value'', File part_a, Data 0 [0x00, 0xFF], File part_b,
      Data 1 [0x7B, 0x7D], Data 0 [0x0A, 0x0D], End 1, Finish, End 0]"
  by (simp add: events_def mixed_tasks_def)

lemma events_map:
  "events (map (map (map (map_event f))) ts) = map (map_event f) (events ts)"
  by (simp add: events_def map_concat)

lemma mixed_protocol: "decoder_protocol (events mixed_tasks)"
  by (simp add: mixed_events decoder_protocol_def stream_protocol_def live_def)

lemma mixed_fastify_protocol:
  "decoder_protocol (events (map (map (map (map_event to_fastify))) mixed_tasks))"
  by (simp add: events_map mixed_events decoder_protocol_def stream_protocol_def live_def
        part_a_def part_b_def)

lemma mixed_complete:
  "Finish \<in> set (events mixed_tasks)"
  "\<forall>k<length (announced (events mixed_tasks)). End k \<in> set (events mixed_tasks)"
  "\<forall>x. Decoder_error x \<notin> set (events mixed_tasks)"
  by (auto simp: mixed_events less_Suc_eq)

lemma mixed_fastify_complete:
  "Finish \<in> set (events (map (map (map (map_event to_fastify))) mixed_tasks))"
  "\<forall>k<length (announced (events (map (map (map (map_event to_fastify))) mixed_tasks))).
      End k \<in> set (events (map (map (map (map_event to_fastify))) mixed_tasks))"
  "\<forall>x. Decoder_error x \<notin> set (events (map (map (map (map_event to_fastify))) mixed_tasks))"
  by (auto simp: events_map mixed_events less_Suc_eq part_a_def part_b_def)

lemma mixed_run: "awaited (read_run mixed_tasks) = Files mixed_files"
  by (simp add: run_defs mixed_tasks_def mixed_files_def part_a_def part_b_def)

lemma upload_header:
  "headers upload_request ''content-type''
     = Some (''multipart/form-data'' @ ''; boundary=----testboundary'')"
  by (simp add: upload_request_def)

lemma mixed_read: "readMultipartFormData mixed_busboy upload_request = (Files mixed_files, True)"
  using mixed_run
  by (simp add: readMultipartFormData_def getContentType_def charCodeAt_def startsWith_def
        upload_request_def mixed_busboy_def)

lemma mixed_get:
  "getMultipartFormData (as_fastify mixed_busboy) upload_request = (Files mixed_files, True)"
  using mixed_run
  by (simp add: getMultipartFormData_def getContentType_def charCodeAt_def startsWith_def
        upload_request_def mixed_busboy_def as_fastify_def get_run_to_fastify)

lemma mixed_records: "records read_args (events mixed_tasks) = mixed_files"
  by (simp add: records_def mixed_events mixed_files_def record_of_def part_a_def part_b_def
        upt_rec[of 0] upt_rec[of 1] upt_rec[of 2])

lemma mixed_fastify_records:
  "records get_args (events (map (map (map (map_event to_fastify))) mixed_tasks)) = mixed_files"
  by (simp add: records_def events_map mixed_events mixed_files_def record_of_def
        part_a_def part_b_def upt_rec[of 0] upt_rec[of 1] upt_rec[of 2])

lemma mixed_decoders:
  "mixed_busboy (headers upload_request) = Inr (\<lambda>body. mixed_tasks)"
  "as_fastify mixed_busboy (headers upload_request)
     = Inr (\<lambda>body. map (map (map (map_event to_fastify))) mixed_tasks)"
  by (simp_all add: mixed_busboy_def as_fastify_def)

text \<open>
  The JSON request gets \<open>null\<close> from both extractors and is left alone; the upload
  request is decoded.
\<close>

theorem applicability_witness:
  "readMultipartFormData mixed_busboy json_request = (Null, False)
   \<and> getMultipartFormData (as_fastify mixed_busboy) json_request = (Null, False)
   \<and> readMultipartFormData mixed_busboy upload_request = (Files mixed_files, True)
   \<and> fst (getMultipartFormData (as_fastify mixed_busboy) upload_request) \<noteq> Null"
proof -
  have j: "headers json_request ''content-type'' = Some ''application/json''"
    and nj: "\<not> (\<exists>rest. ''application/json'' = ''multipart/form-data'' @ rest)"
    by (simp_all add: json_request_def)
  from applicability[where req = json_request and busboy = mixed_busboy
      and Busboy = "as_fastify mixed_busboy"] j nj
  have 1: "readMultipartFormData mixed_busboy json_request = (Null, False)
       \<and> getMultipartFormData (as_fastify mixed_busboy) json_request = (Null, False)"
    by blast
  note a = applicability[where req = upload_request and busboy = mixed_busboy
      and Busboy = "as_fastify mixed_busboy", THEN conjunct2, THEN conjunct1, rule_format,
      OF upload_header]
  from a[THEN conjunct1] mixed_run
  have 2: "readMultipartFormData mixed_busboy upload_request = (Files mixed_files, True)"
    by (simp add: mixed_busboy_def)
  from a have 3: "fst (getMultipartFormData (as_fastify mixed_busboy) upload_request) \<noteq> Null"
    by blast
  from 1 2 3 show ?thesis by simp
qed

section \<open>Multipart: the returned records\<close>

lemma applicable:
  "headers req ''content-type'' = Some (''multipart/form-data'' @ rest) \<Longrightarrow>
     getContentType req = Some (''multipart/form-data'' @ rest)"
  unfolding getContentType_prefix startsWith_iff by auto

lemma read_applicable:
  "headers req ''content-type'' = Some (''multipart/form-data'' @ rest) \<Longrightarrow>
   busboy (headers req) = Inr bb \<Longrightarrow>
     readMultipartFormData busboy req = (awaited (run read_args (bb (body_chunks req))), True)"
  by (simp add: readMultipartFormData_def applicable read_run_eq)

lemma get_applicable:
  assumes "headers req ''content-type'' = Some (''multipart/form-data'' @ rest)"
    and "Busboy (headers req) = Inr fb"
  shows "getMultipartFormData Busboy req = (awaited (run get_args (fb (body_chunks req))), True)"
proof -
  note g = applicable[OF assms(1)]
  from headers_update[OF g] assms(2) g show ?thesis
    unfolding getMultipartFormData_def by (simp add: get_run_eq del: fun_upd_apply)
qed

lemma read_Files:
  "readMultipartFormData busboy req = (Files recs, piped) \<Longrightarrow> busboy (headers req) = Inr bb \<Longrightarrow>
     awaited (run read_args (bb (body_chunks req))) = Files recs"
  by (auto simp: readMultipartFormData_def read_run_eq split: option.splits)

lemma get_Files:
  "getMultipartFormData Busboy req = (Files recs, piped) \<Longrightarrow> Busboy (headers req) = Inr fb \<Longrightarrow>
     awaited (run get_args (fb (body_chunks req))) = Files recs"
  unfolding getMultipartFormData_def
  by (auto simp: get_run_eq headers_update split: option.splits simp del: fun_upd_apply)

lemma complete_content:
  assumes dp: "decoder_protocol (events ts)"
    and fin: "Finish \<in> set (events ts)"
    and ended: "\<forall>k<length (announced (events ts)). End k \<in> set (events ts)"
    and noerr: "\<forall>x. Decoder_error x \<notin> set (events ts)"
  shows "\<exists>recs. awaited (run args ts) = Files recs
          \<and> length recs = length (announced (events ts))
          \<and> (\<forall>k<length recs. buffer (recs ! k) = concat (received k (events ts))
               \<and> length (buffer (recs ! k)) = sum_list (map length (received k (events ts))))"
proof -
  from run_Files_complete[OF dp fin ended noerr, of args]
  have "awaited (run args ts) = Files (records args (events ts))" .
  then show ?thesis
    by (intro exI[of _ "records args (events ts)"])
       (simp add: length_records buffer_records length_concat)
qed

text \<open>
  C4. For a request with a multipart content type whose body the decoder decodes to
  the end (it reports \<open>finish\<close>, every announced part's stream ends, and it reports no
  error), either extractor returns files, one per announced part, and the content of
  each record is the concatenation, in the order of arrival, of the chunks the decoder
  delivered on that part's stream; its length is the number of bytes delivered.
  And whenever an extractor returns files, each record's content is that
  concatenation: nothing is cut off and no byte is changed. The decoder is taken to
  deliver a stream's chunks between the part's announcement and the stream's end.
\<close>

theorem file_content_exact:
  "(headers req ''content-type'' = Some (''multipart/form-data'' @ rest)
    \<and> busboy (headers req) = Inr bb \<and> evs = events (bb (body_chunks req))
    \<and> decoder_protocol evs \<and> Finish \<in> set evs
    \<and> (\<forall>k<length (announced evs). End k \<in> set evs) \<and> (\<forall>x. Decoder_error x \<notin> set evs)
     \<longrightarrow> (\<exists>recs. readMultipartFormData busboy req = (Files recs, True)
            \<and> length recs = length (announced evs)
            \<and> (\<forall>k<length recs. buffer (recs ! k) = concat (received k evs)
                 \<and> length (buffer (recs ! k)) = sum_list (map length (received k evs)))))
   \<and> (busboy (headers req) = Inr bb \<and> stream_protocol (events (bb (body_chunks req))) \<and>
    readMultipartFormData busboy req = (Files recs, piped) \<and> k < length recs
     \<longrightarrow> buffer (recs ! k) = concat (received k (events (bb (body_chunks req))))
       \<and> length (buffer (recs ! k))
           = sum_list (map length (received k (events (bb (body_chunks req))))))
   \<and> (headers req' ''content-type'' = Some (''multipart/form-data'' @ rest')
    \<and> Busboy (headers req') = Inr fb \<and> evs' = events (fb (body_chunks req'))
    \<and> decoder_protocol evs' \<and> Finish \<in> set evs'
    \<and> (\<forall>k<length (announced evs'). End k \<in> set evs') \<and> (\<forall>x. Decoder_error x \<notin> set evs')
     \<longrightarrow> (\<exists>recs. getMultipartFormData Busboy req' = (Files recs, True)
            \<and> length recs = length (announced evs')
            \<and> (\<forall>k<length recs. buffer (recs ! k) = concat (received k evs')
                 \<and> length (buffer (recs ! k)) = sum_list (map length (received k evs')))))
   \<and> (Busboy (headers req') = Inr fb \<and> stream_protocol (events (fb (body_chunks req'))) \<and>
    getMultipartFormData Busboy req' = (Files recs', piped') \<and> k' < length recs'
     \<longrightarrow> buffer (recs' ! k') = concat (received k' (events (fb (body_chunks req'))))
       \<and> length (buffer (recs' ! k'))
           = sum_list (map length (received k' (events (fb (body_chunks req'))))))"
proof (intro conjI impI; elim conjE)
  assume h: "headers req ''content-type'' = Some (''multipart/form-data'' @ rest)"
    and b: "busboy (headers req) = Inr bb" and e: "evs = events (bb (body_chunks req))"
    and "decoder_protocol evs" "Finish \<in> set evs"
    "\<forall>k<length (announced evs). End k \<in> set evs" "\<forall>x. Decoder_error x \<notin> set evs"
  with complete_content[of "bb (body_chunks req)" read_args]
  show "\<exists>recs. readMultipartFormData busboy req = (Files recs, True)
            \<and> length recs = length (announced evs)
            \<and> (\<forall>k<length recs. buffer (recs ! k) = concat (received k evs)
                 \<and> length (buffer (recs ! k)) = sum_list (map length (received k evs)))"
    unfolding read_applicable[where req = req and busboy = busboy and bb = bb, OF h b] by simp
next
  assume "busboy (headers req) = Inr bb" "stream_protocol (events (bb (body_chunks req)))"
    "readMultipartFormData busboy req = (Files recs, piped)" "k < length recs"
  with run_content[of read_args "bb (body_chunks req)" recs k] read_Files[of busboy req recs piped bb]
  show c: "buffer (recs ! k) = concat (received k (events (bb (body_chunks req))))" by simp
  show "length (buffer (recs ! k))
      = sum_list (map length (received k (events (bb (body_chunks req)))))"
    unfolding c by (simp add: length_concat)
next
  assume h: "headers req' ''content-type'' = Some (''multipart/form-data'' @ rest')"
    and b: "Busboy (headers req') = Inr fb" and e: "evs' = events (fb (body_chunks req'))"
    and "decoder_protocol evs'" "Finish \<in> set evs'"
    "\<forall>k<length (announced evs'). End k \<in> set evs'" "\<forall>x. Decoder_error x \<notin> set evs'"
  with complete_content[of "fb (body_chunks req')" get_args]
  show "\<exists>recs. getMultipartFormData Busboy req' = (Files recs, True)
            \<and> length recs = length (announced evs')
            \<and> (\<forall>k<length recs. buffer (recs ! k) = concat (received k evs')
                 \<and> length (buffer (recs ! k)) = sum_list (map length (received k evs')))"
    unfolding get_applicable[where req = req' and Busboy = Busboy and fb = fb, OF h b] by simp
next
  assume "Busboy (headers req') = Inr fb" "stream_protocol (events (fb (body_chunks req')))"
    "getMultipartFormData Busboy req' = (Files recs', piped')" "k' < length recs'"
  with run_content[of get_args "fb (body_chunks req')" recs' k'] get_Files[of Busboy req' recs' piped' fb]
  show c: "buffer (recs' ! k') = concat (received k' (events (fb (body_chunks req'))))" by simp
  show "length (buffer (recs' ! k'))
      = sum_list (map length (received k' (events (fb (body_chunks req')))))"
    unfolding c by (simp add: length_concat)
qed

text \<open>
  The upload of the example: both extractors return two records, the first with the
  four bytes \<open>00 FF 0A 0D\<close> that came in two chunks, the second with the bytes of the
  other part.
\<close>

theorem file_content_exact_witness:
  "(case fst (readMultipartFormData mixed_busboy upload_request) of
      Files recs \<Rightarrow> map buffer recs | _ \<Rightarrow> []) = [[0x00, 0xFF, 0x0A, 0x0D], [0x7B, 0x7D]]
   \<and> (case fst (getMultipartFormData (as_fastify mixed_busboy) upload_request) of
      Files recs \<Rightarrow> map (\<lambda>r. length (buffer r)) recs | _ \<Rightarrow> []) = [4, 2]
   \<and> buffer (mixed_files ! 1)
       = concat (received 1 (events (map (map (map (map_event to_fastify))) mixed_tasks)))"
proof -
  have two: "xs = [xs ! 0, xs ! 1]" if "length xs = 2" for xs :: "'a list"
    using that by (cases xs; cases "tl xs") auto
  have an: "length (announced (events mixed_tasks)) = 2"
    and rc: "concat (received 0 (events mixed_tasks)) = [0x00, 0xFF, 0x0A, 0x0D]"
      "concat (received 1 (events mixed_tasks)) = [0x7B, 0x7D]"
    by (simp_all add: mixed_events)
  have an': "length (announced (events (map (map (map (map_event to_fastify))) mixed_tasks))) = 2"
    and rc': "received 0 (events (map (map (map (map_event to_fastify))) mixed_tasks))
        = [[0x00, 0xFF], [0x0A, 0x0D]]"
      "received 1 (events (map (map (map (map_event to_fastify))) mixed_tasks)) = [[0x7B, 0x7D]]"
    by (simp_all add: events_map mixed_events part_a_def part_b_def)
  note t = file_content_exact[where busboy = mixed_busboy and req = upload_request
      and rest = "''; boundary=----testboundary''"
      and bb = "\<lambda>body. mixed_tasks" and evs = "events mixed_tasks"
      and Busboy = "as_fastify mixed_busboy" and req' = upload_request
      and rest' = "''; boundary=----testboundary''"
      and fb = "\<lambda>body. map (map (map (map_event to_fastify))) mixed_tasks"
      and evs' = "events (map (map (map (map_event to_fastify))) mixed_tasks)"
      and recs' = mixed_files and piped' = True and k' = 1]
  from t[THEN conjunct1, rule_format,
      OF conjI[OF upload_header conjI[OF mixed_decoders(1) conjI[OF refl conjI[OF mixed_protocol
        conjI[OF mixed_complete(1) conjI[OF mixed_complete(2) mixed_complete(3)]]]]]]]
  obtain recs where r: "readMultipartFormData mixed_busboy upload_request = (Files recs, True)"
    and l: "length recs = 2"
    and c: "\<forall>k<length recs. buffer (recs ! k) = concat (received k (events mixed_tasks))"
    unfolding an by blast
  from c l rc have "buffer (recs ! 0) = [0x00, 0xFF, 0x0A, 0x0D]" "buffer (recs ! 1) = [0x7B, 0x7D]"
    by simp_all
  with two[of "map buffer recs"] l have "map buffer recs = [[0x00, 0xFF, 0x0A, 0x0D], [0x7B, 0x7D]]"
    by simp
  with r have 1: "(case fst (readMultipartFormData mixed_busboy upload_request) of
      Files recs \<Rightarrow> map buffer recs | _ \<Rightarrow> []) = [[0x00, 0xFF, 0x0A, 0x0D], [0x7B, 0x7D]]"
    by simp
  from t[THEN conjunct2, THEN conjunct2, THEN conjunct1, rule_format,
      OF conjI[OF upload_header conjI[OF mixed_decoders(2) conjI[OF refl
        conjI[OF mixed_fastify_protocol conjI[OF mixed_fastify_complete(1)
          conjI[OF mixed_fastify_complete(2) mixed_fastify_complete(3)]]]]]]]
  obtain recs2 where r2: "getMultipartFormData (as_fastify mixed_busboy) upload_request
        = (Files recs2, True)"
    and l2: "length recs2 = 2"
    and c2: "\<forall>k<length recs2. length (buffer (recs2 ! k))
        = sum_list (map length
            (received k (events (map (map (map (map_event to_fastify))) mixed_tasks))))"
    unfolding an' by blast
  from c2 l2 rc' have "length (buffer (recs2 ! 0)) = 4" "length (buffer (recs2 ! 1)) = 2"
    by simp_all
  with two[of "map (\<lambda>r. length (buffer r)) recs2"] l2
  have "map (\<lambda>r. length (buffer r)) recs2 = [4, 2]" by simp
  with r2 have 2: "(case fst (getMultipartFormData (as_fastify mixed_busboy) upload_request) of
      Files recs \<Rightarrow> map (\<lambda>r. length (buffer r)) recs | _ \<Rightarrow> []) = [4, 2]"
    by simp
  have sp': "stream_protocol
      (events ((\<lambda>body. map (map (map (map_event to_fastify))) mixed_tasks) (body_chunks upload_request)))"
    using mixed_fastify_protocol by (simp add: decoder_protocol_def)
  have k': "1 < length mixed_files" by (simp add: mixed_files_def)
  from t[THEN conjunct2, THEN conjunct2, THEN conjunct2, rule_format,
      OF conjI[OF mixed_decoders(2) conjI[OF sp' conjI[OF mixed_get k']]]]
  have 3: "buffer (mixed_files ! 1)
       = concat (received 1 (events (map (map (map (map_event to_fastify))) mixed_tasks)))"
    by simp
  from 1 2 3 show ?thesis by simp
qed

text \<open>
  C5. For a request with a multipart content type and a decoder that keeps to its
  protocol: if the extractor returns files, then the decoder has reported \<open>finish\<close>,
  every announced part's stream has ended, and the files are one record per announced
  file part, in the order of the announcements; non-file fields give no record.
  Conversely, when \<open>finish\<close> is reported and every announced stream has ended, with no
  decoder error, the extractor returns these records. And the returned promise is not
  fulfilled earlier: after any number of the decoder's tasks, a fulfilled promise
  means that \<open>finish\<close> has been reported and every part announced so far has ended.
\<close>

theorem resolves_after_finish_in_order:
  "(headers req ''content-type'' = Some (''multipart/form-data'' @ rest)
    \<and> busboy (headers req) = Inr bb \<and> ts = bb (body_chunks req) \<and> decoder_protocol (events ts)
     \<longrightarrow>
      (readMultipartFormData busboy req = (Files recs, piped) \<longrightarrow>
         Finish \<in> set (events ts) \<and> (\<forall>k<length (announced (events ts)). End k \<in> set (events ts))
         \<and> recs = records read_args (events ts))
      \<and> (Finish \<in> set (events ts) \<and> (\<forall>k<length (announced (events ts)). End k \<in> set (events ts))
           \<and> (\<forall>x. Decoder_error x \<notin> set (events ts))
         \<longrightarrow> readMultipartFormData busboy req = (Files (records read_args (events ts)), True))
      \<and> (awaited (read_run (take n ts)) = Files early \<longrightarrow>
         Finish \<in> set (events (take n ts))
         \<and> (\<forall>k<length (announced (events (take n ts))). End k \<in> set (events (take n ts)))
         \<and> early = records read_args (events (take n ts))))
   \<and> (headers req' ''content-type'' = Some (''multipart/form-data'' @ rest')
    \<and> Busboy (headers req') = Inr fb \<and> ts' = fb (body_chunks req') \<and> decoder_protocol (events ts')
     \<longrightarrow>
      (getMultipartFormData Busboy req' = (Files recs', piped') \<longrightarrow>
         Finish \<in> set (events ts') \<and> (\<forall>k<length (announced (events ts')). End k \<in> set (events ts'))
         \<and> recs' = records get_args (events ts'))
      \<and> (Finish \<in> set (events ts') \<and> (\<forall>k<length (announced (events ts')). End k \<in> set (events ts'))
           \<and> (\<forall>x. Decoder_error x \<notin> set (events ts'))
         \<longrightarrow> getMultipartFormData Busboy req' = (Files (records get_args (events ts')), True))
      \<and> (awaited (get_run (take n' ts')) = Files early' \<longrightarrow>
         Finish \<in> set (events (take n' ts'))
         \<and> (\<forall>k<length (announced (events (take n' ts'))). End k \<in> set (events (take n' ts')))
         \<and> early' = records get_args (events (take n' ts'))))"
proof (intro conjI impI; elim conjE)
  assume h: "headers req ''content-type'' = Some (''multipart/form-data'' @ rest)"
    and b: "busboy (headers req) = Inr bb" and t: "ts = bb (body_chunks req)"
    and dp: "decoder_protocol (events ts)"
  {
    assume "readMultipartFormData busboy req = (Files recs, piped)"
    with read_applicable[where req = req and busboy = busboy and bb = bb, OF h b] t have "awaited (run read_args ts) = Files recs" by simp
    from run_Files_sound[OF this dp]
    show "Finish \<in> set (events ts)"
      and "\<forall>k<length (announced (events ts)). End k \<in> set (events ts)"
      and "recs = records read_args (events ts)"
      by simp_all
  next
    assume "Finish \<in> set (events ts)"
      "\<forall>k<length (announced (events ts)). End k \<in> set (events ts)"
      "\<forall>x. Decoder_error x \<notin> set (events ts)"
    from run_Files_complete[OF dp this, of read_args] read_applicable[where req = req and busboy = busboy and bb = bb, OF h b] t
    show "readMultipartFormData busboy req = (Files (records read_args (events ts)), True)"
      by simp
  next
    assume "awaited (read_run (take n ts)) = Files early"
    then have "awaited (run read_args (take n ts)) = Files early" by (simp add: read_run_eq)
    from run_Files_sound[OF this decoder_protocol_take[OF dp]]
    show "Finish \<in> set (events (take n ts))"
      and "\<forall>k<length (announced (events (take n ts))). End k \<in> set (events (take n ts))"
      and "early = records read_args (events (take n ts))"
      by simp_all
  }
next
  assume h: "headers req' ''content-type'' = Some (''multipart/form-data'' @ rest')"
    and b: "Busboy (headers req') = Inr fb" and t: "ts' = fb (body_chunks req')"
    and dp: "decoder_protocol (events ts')"
  {
    assume "getMultipartFormData Busboy req' = (Files recs', piped')"
    with get_applicable[where req = req' and Busboy = Busboy and fb = fb, OF h b] t have "awaited (run get_args ts') = Files recs'" by simp
    from run_Files_sound[OF this dp]
    show "Finish \<in> set (events ts')"
      and "\<forall>k<length (announced (events ts')). End k \<in> set (events ts')"
      and "recs' = records get_args (events ts')"
      by simp_all
  next
    assume "Finish \<in> set (events ts')"
      "\<forall>k<length (announced (events ts')). End k \<in> set (events ts')"
      "\<forall>x. Decoder_error x \<notin> set (events ts')"
    from run_Files_complete[OF dp this, of get_args] get_applicable[where req = req' and Busboy = Busboy and fb = fb, OF h b] t
    show "getMultipartFormData Busboy req' = (Files (records get_args (events ts')), True)"
      by simp
  next
    assume "awaited (get_run (take n' ts')) = Files early'"
    then have "awaited (run get_args (take n' ts')) = Files early'" by (simp add: get_run_eq)
    from run_Files_sound[OF this decoder_protocol_take[OF dp]]
    show "Finish \<in> set (events (take n' ts'))"
      and "\<forall>k<length (announced (events (take n' ts'))). End k \<in> set (events (take n' ts'))"
      and "early' = records get_args (events (take n' ts'))"
      by simp_all
  }
qed

text \<open>
  The upload of the example: one field and two file parts give the two records in the
  order of the parts, from either extractor; while the first part's stream has not
  ended the returned promise is pending.
\<close>

theorem resolves_after_finish_in_order_witness:
  "readMultipartFormData mixed_busboy upload_request = (Files mixed_files, True)
   \<and> getMultipartFormData (as_fastify mixed_busboy) upload_request = (Files mixed_files, True)
   \<and> length mixed_files = 2
   \<and> awaited (read_run (take 3 mixed_tasks)) = Never"
proof -
  note t = resolves_after_finish_in_order[where busboy = mixed_busboy and req = upload_request
      and rest = "''; boundary=----testboundary''"
      and bb = "\<lambda>body. mixed_tasks" and ts = mixed_tasks
      and Busboy = "as_fastify mixed_busboy" and req' = upload_request
      and rest' = "''; boundary=----testboundary''"
      and fb = "\<lambda>body. map (map (map (map_event to_fastify))) mixed_tasks"
      and ts' = "map (map (map (map_event to_fastify))) mixed_tasks"]
  from t[THEN conjunct1, rule_format,
      OF conjI[OF upload_header conjI[OF mixed_decoders(1) conjI[OF refl mixed_protocol]]],
      THEN conjunct2, THEN conjunct1, rule_format,
      OF conjI[OF mixed_complete(1) conjI[OF mixed_complete(2) mixed_complete(3)]]]
  have 1: "readMultipartFormData mixed_busboy upload_request = (Files mixed_files, True)"
    by (simp add: mixed_records)
  from t[THEN conjunct2, rule_format,
      OF conjI[OF upload_header conjI[OF mixed_decoders(2) conjI[OF refl mixed_fastify_protocol]]],
      THEN conjunct2, THEN conjunct1, rule_format,
      OF conjI[OF mixed_fastify_complete(1)
        conjI[OF mixed_fastify_complete(2) mixed_fastify_complete(3)]]]
  have 2: "getMultipartFormData (as_fastify mixed_busboy) upload_request = (Files mixed_files, True)"
    by (simp add: mixed_fastify_records)
  have 3: "awaited (read_run (take 3 mixed_tasks)) = Never"
    by (simp add: run_defs mixed_tasks_def part_a_def part_b_def)
  have 4: "length mixed_files = 2" by (simp add: mixed_files_def)
  from 1 2 3 4 show ?thesis by simp
qed

section \<open>Multipart: a failing part\<close>

text \<open>
  C6. A part promise gets its only handler from \<open>Promise.all(promises)\<close>, which the
  \<open>finish\<close> listener calls. When a part's stream reports an error in a task that ends
  before \<open>finish\<close> is reported, the part's promise is rejected with no handler, and
  Node's default for an unhandled rejection ends the process: the caller gets no
  rejection, from either extractor. (With the same events in one task the join is
  started in time and the call is rejected, with the error of the \<open>catch\<close> callback.)
\<close>

theorem stream_error_ends_process:
  "decoder_protocol (events failing_tasks)
   \<and> Stream_error 0 (Non_error ''reset'') \<in> set (events failing_tasks)
   \<and> readMultipartFormData failing_busboy upload_request
       = (Process_ended (Non_error ''reset''), True)
   \<and> getMultipartFormData (as_fastify failing_busboy) upload_request
       = (Process_ended (Non_error ''reset''), True)
   \<and> readMultipartFormData failing_at_once upload_request
       = (Thrown (Error_object ''An error occurred while parsing multipart form data''), True)"
proof -
  have e: "events failing_tasks
      = [File part_a, Data 0 [0x00], Stream_error 0 (Non_error ''reset''), Finish]"
    by (simp add: events_def failing_tasks_def)
  have 1: "decoder_protocol (events failing_tasks)"
    unfolding e by (simp add: decoder_protocol_def stream_protocol_def live_def)
  have 2: "Stream_error 0 (Non_error ''reset'') \<in> set (events failing_tasks)"
    unfolding e by simp
  have r: "awaited (read_run failing_tasks) = Process_ended (Non_error ''reset'')"
    by (simp add: run_defs failing_tasks_def part_a_def)
  have 3: "readMultipartFormData failing_busboy upload_request
       = (Process_ended (Non_error ''reset''), True)"
    using r
    by (simp add: readMultipartFormData_def getContentType_def charCodeAt_def startsWith_def
          upload_request_def failing_busboy_def)
  have 4: "getMultipartFormData (as_fastify failing_busboy) upload_request
       = (Process_ended (Non_error ''reset''), True)"
    using r
    by (simp add: getMultipartFormData_def getContentType_def charCodeAt_def startsWith_def
          upload_request_def failing_busboy_def as_fastify_def get_run_to_fastify)
  have "awaited (read_run [concat failing_tasks])
      = Thrown (Error_object ''An error occurred while parsing multipart form data'')"
    by (simp add: run_defs failing_tasks_def part_a_def)
  then have 5: "readMultipartFormData failing_at_once upload_request
       = (Thrown (Error_object ''An error occurred while parsing multipart form data''), True)"
    by (simp add: readMultipartFormData_def getContentType_def charCodeAt_def startsWith_def
          upload_request_def failing_at_once_def)
  from 1 2 3 4 5 show ?thesis by simp
qed

section \<open>Multipart: the two implementations\<close>

text \<open>
  C10. Given the same decoder behaviour, announced through the one \<open>file\<close> signature
  or the other, \<open>getMultipartFormData\<close> and \<open>readMultipartFormData\<close> give the same
  result on every request: the same \<open>null\<close>, the same files, the same rejection. Every
  @fastify/busboy decoder is such a counterpart of a busboy decoder, and whatever the
  decoders, the two return \<open>null\<close> on the same requests.
\<close>

theorem implementations_agree:
  "getMultipartFormData (as_fastify busboy) req = readMultipartFormData busboy req
   \<and> (\<exists>b. Busboy = as_fastify b)
   \<and> (fst (readMultipartFormData busboy req) = Null) = (fst (getMultipartFormData Busboy req) = Null)"
proof (intro conjI)
  show "getMultipartFormData (as_fastify busboy) req = readMultipartFormData busboy req"
    unfolding getMultipartFormData_def readMultipartFormData_def
    by (auto simp: headers_update as_fastify_def get_run_to_fastify
          split: option.splits sum.splits simp del: fun_upd_apply)
  show "\<exists>b. Busboy = as_fastify b"
    using as_fastify_as_busboy[of Busboy] by metis
  show "(fst (readMultipartFormData busboy req) = Null) = (fst (getMultipartFormData Busboy req) = Null)"
    unfolding getMultipartFormData_def readMultipartFormData_def
    by (auto simp: awaited_not_Null split: option.splits sum.splits simp del: fun_upd_apply)
qed

theorem implementations_agree_witness:
  "getMultipartFormData (as_fastify mixed_busboy) upload_request = (Files mixed_files, True)
   \<and> getMultipartFormData (as_fastify failing_busboy) json_request = (Null, False)"
proof -
  have "readMultipartFormData failing_busboy json_request = (Null, False)"
    by (simp add: readMultipartFormData_def getContentType_def charCodeAt_def json_request_def)
  with implementations_agree[where busboy = mixed_busboy and req = upload_request]
    implementations_agree[where busboy = failing_busboy and req = json_request]
    mixed_read
  show ?thesis by simp
qed

section \<open>Server-sent events: headers, framing and the closed flag\<close>

text \<open>Splitting on newlines and joining with newlines are inverse to each other.\<close>

lemma split_newline_not_Nil: "split_newline s \<noteq> []"
  by (induction s) (auto split: list.splits)

lemma join_newline_Cons: "ls \<noteq> [] \<Longrightarrow> join_newline (l # ls) = l @ CHR 0x0A # join_newline ls"
  by (cases ls) simp_all

lemma join_split_newline: "join_newline (split_newline s) = s"
proof (induction s)
  case Nil
  then show ?case by simp
next
  case (Cons c s)
  then show ?case
    using split_newline_not_Nil[of s]
    by (cases "split_newline s"; cases "tl (split_newline s)") (auto simp: join_newline_Cons)
qed

lemma split_newline_lines: "l \<in> set (split_newline s) \<Longrightarrow> CHR 0x0A \<notin> set l"
  by (induction s arbitrary: l) (auto split: if_splits list.splits)

lemma split_line: "CHR 0x0A \<notin> set l \<Longrightarrow> split_newline (l @ CHR 0x0A # s) = l # split_newline s"
  using split_newline_not_Nil[of s]
  by (induction l) (auto split: list.splits)

lemma split_last_line: "CHR 0x0A \<notin> set l \<Longrightarrow> split_newline l = [l]"
  by (induction l) auto

lemma split_join_newline:
  "ls \<noteq> [] \<Longrightarrow> \<forall>l\<in>set ls. CHR 0x0A \<notin> set l \<Longrightarrow> split_newline (join_newline ls) = ls"
proof (induction ls rule: join_newline.induct)
  case 1
  then show ?case by simp
next
  case (2 l)
  then show ?case by (simp add: split_last_line)
next
  case (3 l v va)
  then show ?case by (simp add: split_line)
qed

lemma prefix_line: "(@) '': '' = (\<lambda>l. CHR '':'' # CHR '' '' # l)"
  by (rule ext) simp

text \<open>
  C7. \<open>pushComment\<close> writes exactly one chunk, as UTF-8, and then flushes if the
  response can: for the empty string the chunk is a colon and a blank line; for a
  non-empty string made of the newline-free lines \<open>ls\<close> joined by newlines it is these
  lines, each after a colon and a space, joined by newlines, and a blank line. Every
  string is made of such lines.
\<close>

theorem pushComment_frames:
  "(pushComment [] res =
      res\<lparr>calls := calls res @ [Write '':\<newline>\<newline>'' ''utf8''] @ (if has_flush res then [Flush] else [])\<rparr>)
   \<and> (ls \<noteq> [] \<and> (\<forall>l\<in>set ls. CHR 0x0A \<notin> set l) \<and> join_newline ls \<noteq> []
       \<longrightarrow> pushComment (join_newline ls) res =
             res\<lparr>calls := calls res
                   @ [Write (join_newline (map (\<lambda>l. '': '' @ l) ls) @ ''\<newline>\<newline>'') ''utf8'']
                   @ (if has_flush res then [Flush] else [])\<rparr>)
   \<and> (\<exists>lines. lines \<noteq> [] \<and> (\<forall>l\<in>set lines. CHR 0x0A \<notin> set l) \<and> join_newline lines = chunk)"
proof (intro conjI impI)
  show "pushComment [] res =
      res\<lparr>calls := calls res @ [Write '':\<newline>\<newline>'' ''utf8''] @ (if has_flush res then [Flush] else [])\<rparr>"
    by (simp add: pushComment_def flush_if_present_def call_def)
next
  assume "ls \<noteq> [] \<and> (\<forall>l\<in>set ls. CHR 0x0A \<notin> set l) \<and> join_newline ls \<noteq> []"
  then show "pushComment (join_newline ls) res =
             res\<lparr>calls := calls res
                   @ [Write (join_newline (map (\<lambda>l. '': '' @ l) ls) @ ''\<newline>\<newline>'') ''utf8'']
                   @ (if has_flush res then [Flush] else [])\<rparr>"
    by (simp add: pushComment_def flush_if_present_def call_def split_join_newline prefix_line)
next
  show "\<exists>lines. lines \<noteq> [] \<and> (\<forall>l\<in>set lines. CHR 0x0A \<notin> set l) \<and> join_newline lines = chunk"
    using split_newline_not_Nil[of chunk] join_split_newline[of chunk] split_newline_lines[of _ chunk]
    by blast
qed

theorem pushComment_frames_witness:
  "calls (pushComment ''a\<newline>b'' fresh_response) = [Write '': a\<newline>: b\<newline>\<newline>'' ''utf8'', Flush]
   \<and> calls (pushComment ''heartbeat'' fresh_response) = [Write '': heartbeat\<newline>\<newline>'' ''utf8'', Flush]
   \<and> calls (pushComment '''' fresh_response) = [Write '':\<newline>\<newline>'' ''utf8'', Flush]"
proof -
  note t = pushComment_frames[where res = fresh_response]
  have 1: "calls (pushComment ''a\<newline>b'' fresh_response) = [Write '': a\<newline>: b\<newline>\<newline>'' ''utf8'', Flush]"
    using t[where ls = "[''a'', ''b'']", THEN conjunct2, THEN conjunct1]
    by (simp add: fresh_response_def)
  have 2: "calls (pushComment ''heartbeat'' fresh_response) = [Write '': heartbeat\<newline>\<newline>'' ''utf8'', Flush]"
    using t[where ls = "[''heartbeat'']", THEN conjunct2, THEN conjunct1]
    by (simp add: fresh_response_def)
  have 3: "calls (pushComment '''' fresh_response) = [Write '':\<newline>\<newline>'' ''utf8'', Flush]"
    using t[THEN conjunct1] by (simp add: fresh_response_def)
  from 1 2 3 show ?thesis by simp
qed

text \<open>
  C8. Opening a channel calls \<open>setHeader\<close> for the four headers, each once and in this
  order, then \<open>flushHeaders\<close> exactly when the response has it, and makes no other
  call: nothing is written.
\<close>

theorem open_sets_headers:
  "createServerSentEvent res =
     (res\<lparr>calls := calls res
            @ [SetHeader ''Content-Type'' ''text/event-stream'',
               SetHeader ''Cache-Control'' ''no-cache'',
               SetHeader ''Connection'' ''keep-alive'',
               SetHeader ''X-Accel-Buffering'' ''no'']
            @ (if has_flushHeaders res then [FlushHeaders] else [])\<rparr>,
      \<lparr>closed = res_closed res\<rparr>)"
  by (simp add: createServerSentEvent_def flushHeaders_if_present_def call_def)

theorem open_sets_headers_witness:
  "calls (fst (createServerSentEvent fresh_response))
     = [SetHeader ''Content-Type'' ''text/event-stream'', SetHeader ''Cache-Control'' ''no-cache'',
        SetHeader ''Connection'' ''keep-alive'', SetHeader ''X-Accel-Buffering'' ''no'', FlushHeaders]
   \<and> calls (fst (createServerSentEvent (fresh_response\<lparr>has_flushHeaders := False\<rparr>)))
     = [SetHeader ''Content-Type'' ''text/event-stream'', SetHeader ''Cache-Control'' ''no-cache'',
        SetHeader ''Connection'' ''keep-alive'', SetHeader ''X-Accel-Buffering'' ''no'']"
  using open_sets_headers[of fresh_response]
    open_sets_headers[of "fresh_response\<lparr>has_flushHeaders := False\<rparr>"]
  by (simp add: fresh_response_def)

lemma handle_act: "handle (act a ch) = handle ch"
  by (cases a) simp_all

lemma handle_acts: "handle (acts as ch) = handle ch"
  unfolding acts_def by (induction as rule: rev_induct) (simp_all add: handle_act)

text \<open>
  C9. The \<open>closed\<close> field of the returned object is the response's \<open>closed\<close> flag as it
  was when the channel was opened: pushing, commenting, closing and the transport
  changing its own flag leave it as it is, while the transport's flag follows the
  transport.
\<close>

theorem closed_is_snapshot:
  "closed (handle (acts as (opened res))) = res_closed res
   \<and> res_closed (transport (acts (as @ [Transport_closed b]) (opened res))) = b"
proof
  show "closed (handle (acts as (opened res))) = res_closed res"
    by (simp add: handle_acts opened_def createServerSentEvent_def flushHeaders_if_present_def
          call_def Let_def)
  show "res_closed (transport (acts (as @ [Transport_closed b]) (opened res))) = b"
    by (simp add: acts_def)
qed

theorem closed_is_snapshot_witness:
  "closed (handle (acts [Push ''data: x\<newline>\<newline>'', Close [], Transport_closed True] (opened fresh_response))) = False
   \<and> res_closed (transport (acts [Push ''data: x\<newline>\<newline>'', Close [], Transport_closed True] (opened fresh_response))) = True"
  using closed_is_snapshot[of "[Push ''data: x\<newline>\<newline>'', Close [], Transport_closed True]" fresh_response]
    closed_is_snapshot[of "[Push ''data: x\<newline>\<newline>'', Close []]" fresh_response True]
  by (simp add: fresh_response_def)

end
